theory Spec2Isabelle
  imports Complex_Main "HOL-Library.Word" "HOL-Library.Signed_Division"
begin

unbundle bit_operations_syntax

section \<open>Machine integers of the target\<close>

text \<open>
  The sketch is written for the ATmega328P (avr-gcc): \<open>int\<close> is 16 bits wide,
  \<open>int32_t\<close> is \<open>long\<close>. Signed arithmetic is two's complement and wraps, \<open>>>\<close> on a
  signed value is the arithmetic shift, a conversion to a narrower signed type keeps the
  low bits, and \<open>/\<close> truncates toward zero. Division by zero is a fault of the model.
\<close>

type_synonym int16_t = "16 word"
type_synonym int32_t = "32 word"
type_synonym uint8_t = "8 word"
type_synonym uint16_t = "16 word"

text \<open>C's \<open>/\<close> on two 16-bit signed operands: the quotient truncated toward zero.\<close>

definition sdiv16 :: "int16_t \<Rightarrow> int16_t \<Rightarrow> int16_t" where
  "sdiv16 a b = word_of_int (sint a sdiv sint b)"

section \<open>Vectors and constants\<close>

datatype vec2 = vec2 (v2x: int16_t) (v2y: int16_t)

datatype vec3 = vec3 (v3x: int16_t) (v3y: int16_t) (v3z: int16_t)

definition v2add :: "vec2 \<Rightarrow> vec2 \<Rightarrow> vec2" where
  "v2add a b = vec2 (v2x a + v2x b) (v2y a + v2y b)"

definition SCREEN_WIDTH :: int16_t where
  "SCREEN_WIDTH = 128"

definition SCREEN_HEIGHT :: int16_t where
  "SCREEN_HEIGHT = 64"

definition MESH_DEPTH :: int16_t where
  "MESH_DEPTH = 0x2a00"

definition NUM_VERTS :: nat where
  "NUM_VERTS = 57"

definition NUM_INDICES :: nat where
  "NUM_INDICES = 136"

text \<open>The mesh: x right, y down, z into the screen.\<close>

definition mesh_verts :: "vec3 list" where
  "mesh_verts = [
    vec3 0x800 0x800 0x800,
    vec3 (- 0x800) 0x800 0x800,
    vec3 (- 0x800) (- 0x800) 0x800,
    vec3 0x800 (- 0x800) 0x800,
    vec3 0x800 0x800 (- 0x800),
    vec3 (- 0x800) 0x800 (- 0x800),
    vec3 (- 0x800) (- 0x800) (- 0x800),
    vec3 0x800 (- 0x800) (- 0x800),
    vec3 0x000 (- 0x1400) 0x000,
    vec3 (- 0x100) 0x800 (- 0x800),
    vec3 (- 0x600) 0x800 (- 0x800),
    vec3 (- 0x600) 0x200 (- 0x800),
    vec3 (- 0x100) 0x200 (- 0x800),
    vec3 0x500 (- 0x200) (- 0x800),
    vec3 0x200 (- 0x200) (- 0x800),
    vec3 0x200 (- 0x500) (- 0x800),
    vec3 0x500 (- 0x500) (- 0x800),
    vec3 (- 0x800) 0x500 0x200,
    vec3 (- 0x800) 0x500 0x500,
    vec3 (- 0x800) 0x200 0x500,
    vec3 (- 0x800) 0x200 0x200,
    vec3 (- 0x800) 0x800 0xb00,
    vec3 0x800 0x800 0xb00,
    vec3 0x800 0x500 0xb00,
    vec3 0x400 0x500 0xb00,
    vec3 0x200 0x200 0xb00,
    vec3 (- 0x600) 0x200 0xb00,
    vec3 (- 0x800) 0x500 0xb00,
    vec3 (- 0x800) 0x800 0x1200,
    vec3 0x800 0x800 0x1200,
    vec3 0x800 0x500 0x1200,
    vec3 0x400 0x500 0x1200,
    vec3 0x200 0x200 0x1200,
    vec3 (- 0x600) 0x200 0x1200,
    vec3 (- 0x800) 0x500 0x1200,
    vec3 0x1000 0x800 0x000,
    vec3 0x1000 (- 0x1400) 0x000,
    vec3 0x1000 0x200 0x000,
    vec3 0x1400 (- 0x1000) 0x000,
    vec3 0xc00 (- 0x1000) 0x000,
    vec3 0x1000 (- 0x1000) 0x400,
    vec3 0x1000 (- 0x1000) (- 0x400),
    vec3 (- 0x800) 0x800 0x000,
    vec3 (- 0x1400) 0x800 0x000,
    vec3 (- 0x1400) 0x200 0x000,
    vec3 (- 0x1200) 0x000 0x000,
    vec3 (- 0x1000) 0x200 0x000,
    vec3 (- 0xe00) 0x000 0x000,
    vec3 (- 0xc00) 0x200 0x000,
    vec3 (- 0xa00) 0x000 0x000,
    vec3 (- 0x800) 0x200 0x000,
    vec3 (- 0x1000) 0x800 0x000,
    vec3 (- 0xc00) 0x800 0x000,
    vec3 (- 0x100) 0x800 (- 0x900),
    vec3 (- 0x600) 0x800 (- 0x900),
    vec3 (- 0x600) 0x800 (- 0xc00),
    vec3 (- 0x100) 0x800 (- 0xc00)]"

definition mesh_indices :: "uint8_t list" where
  "mesh_indices = [
    0, 1, 1, 2, 2, 3, 3, 0,
    4, 5, 5, 6, 6, 7, 7, 4,
    0, 4, 1, 5, 2, 6, 3, 7,
    2, 8, 3, 8, 6, 8, 7, 8,
    10, 11, 11, 12, 12, 9,
    13, 14, 14, 15, 15, 16, 16, 13,
    17, 18, 18, 19, 19, 20, 20, 17,
    21, 22, 22, 23, 23, 24, 24, 25, 25, 26, 26, 27, 27, 21,
    28, 29, 29, 30, 30, 31, 31, 32, 32, 33, 33, 34, 34, 28,
    21, 28, 22, 29, 23, 30, 24, 31, 25, 32, 26, 33, 27, 34,
    35, 36, 37, 38, 37, 39, 37, 40, 37, 41,
    42, 43, 43, 44, 44, 45, 45, 46, 46, 47, 47, 48, 48, 49, 49, 50, 50, 42, 46, 51, 48, 52,
    53, 54, 54, 55, 55, 56, 56, 53]"

text \<open>
  The two per-frame increments. The source initialises them with
  \<open>lroundf(4096.0f*cosf(a*M_PI/180.0f))\<close> and the matching sine, for \<open>a = 3\<close> and
  \<open>a = 1\<close>; floating point is outside this model, so the values those expressions take
  are written as literals.
\<close>

definition rot0 :: vec2 where
  "rot0 = vec2 4090 214"

definition loc0 :: vec2 where
  "loc0 = vec2 4095 71"

section \<open>Fixed-point rotation\<close>

text \<open>Complex multiplication with a 32-bit intermediary (\<open>rotate\<close> in the source).\<close>

definition rotate_vec2 :: "vec2 \<Rightarrow> vec2 \<Rightarrow> vec2" where
  "rotate_vec2 v1 v2 = vec2
     (ucast (signed_drop_bit 12
        ((scast (v2x v1) :: int32_t) * scast (v2x v2) - scast (v2y v1) * scast (v2y v2))))
     (ucast (signed_drop_bit 12
        ((scast (v2x v1) :: int32_t) * scast (v2y v2) + scast (v2y v1) * scast (v2x v2))))"

section \<open>Program state\<close>

type_synonym line = "int16_t \<times> int16_t \<times> int16_t \<times> int16_t"

record state =
  rotation :: vec2
  location :: vec2
  rotation_counter :: uint16_t
  location_counter :: uint16_t
  screen_verts :: "vec2 list"
  fps_counter :: uint8_t
  fps_display :: uint8_t
  TCNT1 :: uint16_t
  serial_out :: "uint8_t list"
  back_buffer :: "line list"
  presented :: "line list list"

text \<open>The globals as the source initialises them; the display starts empty.\<close>

definition init_state :: state where
  "init_state = \<lparr>
     rotation = vec2 0x1000 0,
     location = vec2 0x1000 0,
     rotation_counter = 0,
     location_counter = 0,
     screen_verts = replicate NUM_VERTS (vec2 0 0),
     fps_counter = 0,
     fps_display = 0,
     TCNT1 = 0,
     serial_out = [],
     back_buffer = [],
     presented = [] \<rparr>"

datatype fault = DivByZero | OutOfBounds

section \<open>The frame driver\<close>

text \<open>Lines 269 to 282 of the source: advance both accumulators, then the two resets.\<close>

definition advance :: "state \<Rightarrow> state" where
  "advance s =
    (let s1 = s\<lparr>rotation := rotate_vec2 (rotation s) rot0\<rparr>;
         s2 = s1\<lparr>location := rotate_vec2 (location s1) loc0\<rparr>;
         s3 = s2\<lparr>rotation_counter := rotation_counter s2 + 1\<rparr>;
         s4 = (if 120 \<le> rotation_counter s3
               then s3\<lparr>rotation_counter := 0, rotation := vec2 0x1000 0\<rparr> else s3);
         s5 = s4\<lparr>location_counter := location_counter s4 + 1\<rparr>
     in if 360 \<le> location_counter s5
        then s5\<lparr>location_counter := 0, location := vec2 0x1000 0\<rparr> else s5)"

text \<open>
  The body of the vertex loop (lines 290 to 304), one definition for each local of the
  source: \<open>x\<close> and \<open>z\<close> are computed in 32 bits and stored in 16 bits, \<open>y\<close> and
  \<open>z_prime\<close> are computed in \<open>int\<close>.
\<close>

definition vertex_x :: "vec2 \<Rightarrow> vec2 \<Rightarrow> vec3 \<Rightarrow> int16_t" where
  "vertex_x rot loc vertex =
    ucast (signed_drop_bit 12
             ((scast (v3x vertex) :: int32_t) * scast (v2x rot) - scast (v3z vertex) * scast (v2y rot))
           + scast (v2y loc))"

definition vertex_z :: "vec2 \<Rightarrow> vec2 \<Rightarrow> vec3 \<Rightarrow> int16_t" where
  "vertex_z rot loc vertex =
    ucast (signed_drop_bit 12
             ((scast (v3x vertex) :: int32_t) * scast (v2y rot) + scast (v3z vertex) * scast (v2x rot))
           + scast (v2x loc))"

definition vertex_y :: "vec2 \<Rightarrow> vec3 \<Rightarrow> int16_t" where
  "vertex_y loc vertex = v3y vertex + signed_drop_bit 2 (v2x loc)"

definition vertex_z_prime :: "vec2 \<Rightarrow> vec2 \<Rightarrow> vec3 \<Rightarrow> int16_t" where
  "vertex_z_prime rot loc vertex = signed_drop_bit 6 (vertex_z rot loc vertex + MESH_DEPTH)"

definition transform_vertex :: "vec2 \<Rightarrow> vec2 \<Rightarrow> vec3 \<Rightarrow> fault + vec2" where
  "transform_vertex rot loc vertex =
    (let x = vertex_x rot loc vertex;
         y = vertex_y loc vertex;
         z_prime = vertex_z_prime rot loc vertex
     in if z_prime = 0 then Inl DivByZero
        else
          (let perspective_divided = vec2 (sdiv16 x z_prime) (sdiv16 y z_prime);
               screen_offset =
                 vec2 (signed_drop_bit 1 SCREEN_WIDTH) (signed_drop_bit 1 SCREEN_HEIGHT)
           in Inr (v2add perspective_divided screen_offset)))"

text \<open>The vertex loop, from index \<open>i\<close> on. An index outside either array is a fault.\<close>

function transform_verts :: "nat \<Rightarrow> state \<Rightarrow> fault + state" where
  "transform_verts i s =
    (if i < NUM_VERTS then
       (if length mesh_verts \<le> i \<or> length (screen_verts s) \<le> i then Inl OutOfBounds
        else
          (case transform_vertex (rotation s) (location s) (mesh_verts ! i) of
             Inl e \<Rightarrow> Inl e
           | Inr p \<Rightarrow> transform_verts (i + 1) (s\<lparr>screen_verts := (screen_verts s)[i := p]\<rparr>)))
     else Inr s)"
  by pat_completeness auto
termination
  by (relation "measure (\<lambda>(i, s). NUM_VERTS - i)") auto

text \<open>The edge loop (lines 313 to 321), from index \<open>i\<close> on, in steps of two.\<close>

function draw_lines :: "nat \<Rightarrow> state \<Rightarrow> fault + state" where
  "draw_lines i s =
    (if i < NUM_INDICES then
       (if length mesh_indices \<le> i + 1 then Inl OutOfBounds
        else
          (let i0 = unat (mesh_indices ! i); i1 = unat (mesh_indices ! (i + 1))
           in if length (screen_verts s) \<le> i0 \<or> length (screen_verts s) \<le> i1
              then Inl OutOfBounds
              else
                (let x1 = v2x (screen_verts s ! i0); y1 = v2y (screen_verts s ! i0);
                     x2 = v2x (screen_verts s ! i1); y2 = v2y (screen_verts s ! i1)
                 in draw_lines (i + 2) (s\<lparr>back_buffer := back_buffer s @ [(x1, y1, x2, y2)]\<rparr>))))
     else Inr s)"
  by pat_completeness auto
termination
  by (relation "measure (\<lambda>(i, s). NUM_INDICES - i)") auto

text \<open>The display collaborator, reduced to what the frame driver asks of it.\<close>

definition clearDisplay :: "state \<Rightarrow> state" where
  "clearDisplay s = s\<lparr>back_buffer := []\<rparr>"

definition display :: "state \<Rightarrow> state" where
  "display s = s\<lparr>presented := presented s @ [back_buffer s]\<rparr>"

text \<open>One iteration of \<open>loop()\<close>.\<close>

definition loop :: "state \<Rightarrow> fault + state" where
  "loop s =
    (case transform_verts 0 (advance s) of
       Inl e \<Rightarrow> Inl e
     | Inr s1 \<Rightarrow>
        (case draw_lines 0 (clearDisplay s1) of
           Inl e \<Rightarrow> Inl e
         | Inr s2 \<Rightarrow> (let s3 = display s2 in Inr (s3\<lparr>fps_counter := fps_counter s3 + 1\<rparr>))))"

section \<open>The throughput sampler\<close>

text \<open>The handler of the Timer1 compare interrupt; \<open>SERIAL_PERF\<close> is defined.\<close>

definition ISR_TIMER1_COMPA :: "state \<Rightarrow> state" where
  "ISR_TIMER1_COMPA s =
    (let s1 = s\<lparr>TCNT1 := 0\<rparr>;
         s2 = s1\<lparr>fps_display := fps_counter s1\<rparr>;
         s3 = s2\<lparr>fps_counter := 0\<rparr>
     in s3\<lparr>serial_out := serial_out s3 @ [fps_display s3]\<rparr>)"

section \<open>Runs of the program\<close>

text \<open>
  After \<open>setup()\<close> the program is a sequence of iterations of \<open>loop()\<close> and firings of
  the timer interrupt. A run is first taken at the granularity of whole iterations: the
  handler fires between two of them. A fault ends the run.
\<close>

datatype event = Frame | Sample

fun step :: "event \<Rightarrow> state \<Rightarrow> fault + state" where
  "step Frame s = loop s"
| "step Sample s = Inr (ISR_TIMER1_COMPA s)"

fun run :: "event list \<Rightarrow> state \<Rightarrow> fault + state" where
  "run [] s = Inr s"
| "run (e # es) s = (case step e s of Inl f \<Rightarrow> Inl f | Inr s' \<Rightarrow> run es s')"

text \<open>
  A finer view of the same runs: the six statements of \<open>loop()\<close> one by one, with the
  handler free to fire between any two of them.
\<close>

datatype stmt = Advance | Transform | Clear | Draw | Present | Count

fun exec :: "stmt \<Rightarrow> state \<Rightarrow> fault + state" where
  "exec Advance s = Inr (advance s)"
| "exec Transform s = transform_verts 0 s"
| "exec Clear s = Inr (clearDisplay s)"
| "exec Draw s = draw_lines 0 s"
| "exec Present s = Inr (display s)"
| "exec Count s = Inr (s\<lparr>fps_counter := fps_counter s + 1\<rparr>)"

definition loop_stmts :: "stmt list" where
  "loop_stmts = [Advance, Transform, Clear, Draw, Present, Count]"

datatype micro = Do stmt | Fire

fun micro_step :: "micro \<Rightarrow> state \<Rightarrow> fault + state" where
  "micro_step (Do st) s = exec st s"
| "micro_step Fire s = Inr (ISR_TIMER1_COMPA s)"

fun run_micro :: "micro list \<Rightarrow> state \<Rightarrow> fault + state" where
  "run_micro [] s = Inr s"
| "run_micro (m # ms) s = (case micro_step m s of Inl f \<Rightarrow> Inl f | Inr s' \<Rightarrow> run_micro ms s')"

fun expand :: "event \<Rightarrow> micro list" where
  "expand Frame = map Do loop_stmts"
| "expand Sample = [Fire]"

definition stmts_only :: "micro list \<Rightarrow> micro list" where
  "stmts_only ms = filter (\<lambda>m. m \<noteq> Fire) ms"

section \<open>Notions used in the statements\<close>

text \<open>The squared magnitude of a vector, read as a pair of signed integers.\<close>

definition mag2 :: "vec2 \<Rightarrow> int" where
  "mag2 v = sint (v2x v) * sint (v2x v) + sint (v2y v) * sint (v2y v)"

text \<open>Magnitude at most 1.0 at the fixed-point scale.\<close>

definition at_most_unit :: "vec2 \<Rightarrow> bool" where
  "at_most_unit v = (mag2 v \<le> 4096 * 4096)"

text \<open>Unit magnitude up to rounding: within one unit of 4096.\<close>

definition unit_mag :: "vec2 \<Rightarrow> bool" where
  "unit_mag v = (4095 * 4095 \<le> mag2 v \<and> mag2 v \<le> 4097 * 4097)"

text \<open>
  The value an accumulator holds \<open>k\<close> frames after a reset, for the increment \<open>inc\<close>.
\<close>

fun orbit :: "vec2 \<Rightarrow> nat \<Rightarrow> vec2" where
  "orbit inc 0 = vec2 0x1000 0"
| "orbit inc (Suc k) = rotate_vec2 (orbit inc k) inc"

definition spin_state :: "nat \<Rightarrow> vec2" where
  "spin_state k = orbit rot0 k"

definition sway_state :: "nat \<Rightarrow> vec2" where
  "sway_state k = orbit loc0 k"

text \<open>A check of the first \<open>n\<close> values of an accumulator started at \<open>v\<close>.\<close>

fun all_orbit :: "(vec2 \<Rightarrow> bool) \<Rightarrow> vec2 \<Rightarrow> vec2 \<Rightarrow> nat \<Rightarrow> bool" where
  "all_orbit P inc v 0 = True"
| "all_orbit P inc v (Suc n) = (P v \<and> all_orbit P inc (rotate_vec2 v inc) n)"

text \<open>
  The projection as the specification words it, in unbounded integers: \<open>>>\<close> is
  \<open>drop_bit\<close> (the floor of the division by a power of two), \<open>/\<close> is the division
  truncating toward zero, \<open>MESH_DEPTH\<close> is \<open>0x2a00\<close> and the offsets are 64 and 32.
\<close>

definition pipeline_spec :: "int \<times> int \<Rightarrow> int \<times> int \<Rightarrow> int \<times> int \<times> int \<Rightarrow> int \<times> int" where
  "pipeline_spec spin sway vertex =
    (case vertex of (x0, y0, z0) \<Rightarrow>
      (let x = drop_bit 12 (x0 * fst spin - z0 * snd spin) + snd sway;
           z = drop_bit 12 (x0 * snd spin + z0 * fst spin) + fst sway;
           y = y0 + drop_bit 2 (fst sway);
           z' = drop_bit 6 (z + 0x2a00)
       in (x sdiv z' + 64, y sdiv z' + 32)))"

definition ivec2 :: "vec2 \<Rightarrow> int \<times> int" where
  "ivec2 v = (sint (v2x v), sint (v2y v))"

definition ivec3 :: "vec3 \<Rightarrow> int \<times> int \<times> int" where
  "ivec3 v = (sint (v3x v), sint (v3y v), sint (v3z v))"

text \<open>What the frame driver owns and what it has drawn.\<close>

definition render_view ::
  "state \<Rightarrow> vec2 \<times> vec2 \<times> uint16_t \<times> uint16_t \<times> vec2 list \<times> line list \<times> line list list" where
  "render_view s =
    (rotation s, location s, rotation_counter s, location_counter s,
     screen_verts s, back_buffer s, presented s)"

definition frames_only :: "event list \<Rightarrow> event list" where
  "frames_only es = filter (\<lambda>e. e = Frame) es"

text \<open>
  The part of the mesh geometry the projection relies on: the distance of a vertex from
  the vertical axis is at most \<open>0x1400\<close>, its height lies between \<open>-0x1400\<close> and
  \<open>0x800\<close>.
\<close>

definition vertex_ok :: "vec3 \<Rightarrow> bool" where
  "vertex_ok v =
    (sint (v3x v) * sint (v3x v) + sint (v3z v) * sint (v3z v) \<le> 5120 * 5120
     \<and> - 5120 \<le> sint (v3y v) \<and> sint (v3y v) \<le> 2048)"

text \<open>
  The invariant of the frame driver: each counter is below its period, each accumulator
  holds the value its counter stands for, and the screen buffer has its declared size.
\<close>

definition accumulators_ok :: "state \<Rightarrow> bool" where
  "accumulators_ok s =
    (unat (rotation_counter s) < 120 \<and> rotation s = spin_state (unat (rotation_counter s))
     \<and> unat (location_counter s) < 360 \<and> location s = sway_state (unat (location_counter s))
     \<and> length (screen_verts s) = NUM_VERTS)"

text \<open>The state with the fields of the sampler and of its peripherals replaced.\<close>

definition with_fps :: "uint8_t \<Rightarrow> uint8_t \<Rightarrow> uint16_t \<Rightarrow> uint8_t list \<Rightarrow> state \<Rightarrow> state" where
  "with_fps c d t out s = s\<lparr>fps_counter := c, fps_display := d, TCNT1 := t, serial_out := out\<rparr>"

section \<open>Integer facts\<close>

lemma cs_identity:
  fixes a b c d :: int
  shows "(a * c - b * d)\<^sup>2 + (a * d + b * c)\<^sup>2 = (a * a + b * b) * (c * c + d * d)"
  by (simp add: power2_eq_square algebra_simps)

lemma cs_bound:
  fixes a b c d A C :: int
  assumes ab: "a * a + b * b \<le> A * A" and cd: "c * c + d * d \<le> C * C"
    and A: "0 \<le> A" and C: "0 \<le> C"
  shows "\<bar>a * c - b * d\<bar> \<le> A * C" and "\<bar>a * d + b * c\<bar> \<le> A * C"
proof -
  have nn1: "0 \<le> a * a + b * b" and nn2: "0 \<le> c * c + d * d"
    by simp_all
  have prod: "(a * a + b * b) * (c * c + d * d) \<le> (A * A) * (C * C)"
    using ab cd nn1 nn2 by (intro mult_mono) auto
  have sq: "(A * A) * (C * C) = (A * C)\<^sup>2"
    by (simp add: power2_eq_square algebra_simps)
  have "(a * c - b * d)\<^sup>2 \<le> (a * c - b * d)\<^sup>2 + (a * d + b * c)\<^sup>2"
    by simp
  also have "\<dots> \<le> (A * C)\<^sup>2"
    using prod by (simp only: cs_identity sq)
  finally have "\<bar>a * c - b * d\<bar> \<le> \<bar>A * C\<bar>"
    by (simp only: abs_le_square_iff)
  then show "\<bar>a * c - b * d\<bar> \<le> A * C"
    using A C by simp
  have "(a * d + b * c)\<^sup>2 \<le> (a * c - b * d)\<^sup>2 + (a * d + b * c)\<^sup>2"
    by simp
  also have "\<dots> \<le> (A * C)\<^sup>2"
    using prod by (simp only: cs_identity sq)
  finally have "\<bar>a * d + b * c\<bar> \<le> \<bar>A * C\<bar>"
    by (simp only: abs_le_square_iff)
  then show "\<bar>a * d + b * c\<bar> \<le> A * C"
    using A C by simp
qed

lemma component_bound:
  fixes a b A :: int
  assumes "a * a + b * b \<le> A * A" and "0 \<le> A"
  shows "\<bar>a\<bar> \<le> A" and "\<bar>b\<bar> \<le> A"
proof -
  have "0 \<le> a * a" "0 \<le> b * b"
    by simp_all
  with assms(1) have "a * a \<le> A * A" "b * b \<le> A * A"
    by linarith+
  then have "a\<^sup>2 \<le> A\<^sup>2" "b\<^sup>2 \<le> A\<^sup>2"
    by (simp_all add: power2_eq_square)
  then have "\<bar>a\<bar> \<le> \<bar>A\<bar>" "\<bar>b\<bar> \<le> \<bar>A\<bar>"
    by (simp_all only: abs_le_square_iff)
  with assms(2) show "\<bar>a\<bar> \<le> A" and "\<bar>b\<bar> \<le> A"
    by simp_all
qed

lemma sdiv_abs_le:
  fixes x z :: int
  shows "\<bar>x sdiv z\<bar> \<le> \<bar>x\<bar>"
proof -
  have nn: "0 \<le> \<bar>x\<bar> div \<bar>z\<bar>"
    by (cases "z = 0") (simp_all add: pos_imp_zdiv_nonneg_iff)
  have "\<bar>x sdiv z\<bar> = \<bar>sgn x\<bar> * \<bar>sgn z\<bar> * (\<bar>x\<bar> div \<bar>z\<bar>)"
    using nn by (simp add: signed_divide_int_def abs_mult)
  also have "\<dots> \<le> \<bar>x\<bar> div \<bar>z\<bar>"
    using nn by (cases "x = 0"; cases "z = 0") (simp_all add: abs_sgn_eq)
  also have "\<dots> \<le> \<bar>x\<bar>"
    using zdiv_mono2 [of "\<bar>x\<bar>" 1 "\<bar>z\<bar>"] by (cases "z = 0") simp_all
  finally show ?thesis .
qed


section \<open>From machine words to integers\<close>

lemma ucast_32_16: "(ucast (w :: 32 word) :: 16 word) = word_of_int (sint w)"
proof -
  have "take_bit 16 (uint w) = take_bit 16 (sint w)"
    by (simp add: sint_uint take_bit_signed_take_bit)
  then have "(word_of_int (uint w) :: 16 word) = word_of_int (sint w)"
    by (simp only: word_of_int_eq_iff) simp
  then show ?thesis
    by (simp only: ucast_eq)
qed

lemma wi16_wrap32: "(word_of_int (signed_take_bit 31 k) :: 16 word) = word_of_int k"
  by (simp add: word_of_int_eq_iff take_bit_signed_take_bit)

lemma drop_wrap:
  "(word_of_int (drop_bit 12 (signed_take_bit 31 E)) :: 16 word) = word_of_int (drop_bit 12 E)"
proof -
  have "take_bit 16 (drop_bit 12 (signed_take_bit 31 E)) = drop_bit 12 (take_bit 28 (signed_take_bit 31 E))"
    by (simp add: drop_bit_take_bit)
  also have "\<dots> = drop_bit 12 (take_bit 28 E)"
    by (simp add: take_bit_signed_take_bit)
  also have "\<dots> = take_bit 16 (drop_bit 12 E)"
    by (simp add: drop_bit_take_bit)
  finally show ?thesis
    by (simp add: word_of_int_eq_iff)
qed

lemma sint_shift12:
  "sint (signed_drop_bit 12 (word_of_int E :: 32 word)) = drop_bit 12 (signed_take_bit 31 E)"
  by (simp add: sint_signed_drop_bit_eq sint_sbintrunc')

lemma narrow_shift:
  "(ucast (signed_drop_bit 12 (word_of_int E :: 32 word)) :: 16 word) = word_of_int (drop_bit 12 E)"
  by (simp only: ucast_32_16 sint_shift12 drop_wrap)

lemma sint_add32: "sint (a + b :: 32 word) = signed_take_bit 31 (sint a + sint b)"
  by (simp add: sint_word_ariths)

lemma sint_wi32: "sint (word_of_int k :: 32 word) = signed_take_bit 31 k"
  by (simp add: sint_sbintrunc')

lemma narrow_shift_add:
  "(ucast (signed_drop_bit 12 (word_of_int E :: 32 word) + word_of_int l) :: 16 word)
     = word_of_int (drop_bit 12 E + l)"
proof -
  have "sint (signed_drop_bit 12 (word_of_int E :: 32 word) + word_of_int l)
      = signed_take_bit 31 (drop_bit 12 (signed_take_bit 31 E) + signed_take_bit 31 l)"
    by (simp only: sint_add32 sint_shift12 sint_wi32)
  then have "(ucast (signed_drop_bit 12 (word_of_int E :: 32 word) + word_of_int l) :: 16 word)
      = word_of_int (signed_take_bit 31 (drop_bit 12 (signed_take_bit 31 E) + signed_take_bit 31 l))"
    by (simp only: ucast_32_16)
  also have "\<dots> = word_of_int (drop_bit 12 (signed_take_bit 31 E) + signed_take_bit 31 l)"
    by (simp only: wi16_wrap32)
  also have "\<dots> = word_of_int (drop_bit 12 (signed_take_bit 31 E)) + word_of_int (signed_take_bit 31 l)"
    by (simp only: wi_hom_add)
  also have "\<dots> = word_of_int (drop_bit 12 E) + word_of_int l"
    by (simp only: wi16_wrap32 drop_wrap)
  also have "\<dots> = word_of_int (drop_bit 12 E + l)"
    by (simp only: wi_hom_add)
  finally show ?thesis .
qed

lemma scast_16_32: "(scast (a :: 16 word) :: 32 word) = word_of_int (sint a)"
  by (simp only: scast_eq)

lemma rotate_int:
  "rotate_vec2 v r = vec2
     (word_of_int (drop_bit 12 (sint (v2x v) * sint (v2x r) - sint (v2y v) * sint (v2y r))))
     (word_of_int (drop_bit 12 (sint (v2x v) * sint (v2y r) + sint (v2y v) * sint (v2x r))))"
  unfolding rotate_vec2_def scast_16_32
  by (simp only: wi_homs narrow_shift)

lemma vertex_x_int:
  "vertex_x rot loc v =
     word_of_int (drop_bit 12 (sint (v3x v) * sint (v2x rot) - sint (v3z v) * sint (v2y rot))
                  + sint (v2y loc))"
  unfolding vertex_x_def scast_16_32
  by (simp only: wi_homs narrow_shift_add)

lemma vertex_z_int:
  "vertex_z rot loc v =
     word_of_int (drop_bit 12 (sint (v3x v) * sint (v2y rot) + sint (v3z v) * sint (v2x rot))
                  + sint (v2x loc))"
  unfolding vertex_z_def scast_16_32
  by (simp only: wi_homs narrow_shift_add)

lemma sint_wi16: "- 32768 \<le> k \<Longrightarrow> k < 32768 \<Longrightarrow> sint (word_of_int k :: 16 word) = k"
  by (simp add: sint_sbintrunc' signed_take_bit_int_eq_self)

lemma sint_add16:
  "- 32768 \<le> sint a + sint b \<Longrightarrow> sint a + sint b < 32768 \<Longrightarrow>
     sint (a + b :: 16 word) = sint a + sint b"
  by (simp add: sint_word_ariths signed_take_bit_int_eq_self)

section \<open>The intermediates of the rotation\<close>

lemma prod16_bounds:
  fixes a c :: int
  assumes "- 32768 \<le> a" "a \<le> 32767" "- 32768 \<le> c" "c \<le> 32767"
  shows "- (32768 * 32767) \<le> a * c" and "a * c \<le> 32768 * 32768"
    and "\<not> (a = - 32768 \<and> c = - 32768) \<Longrightarrow> a * c \<le> 32768 * 32767"
proof -
  have "\<bar>a\<bar> \<le> 32768" "\<bar>c\<bar> \<le> 32768"
    using assms by simp_all
  then have "\<bar>a\<bar> * \<bar>c\<bar> \<le> 32768 * 32768"
    by (intro mult_mono) simp_all
  then show "a * c \<le> 32768 * 32768"
    by (simp add: abs_mult [symmetric])
  have "0 \<le> (a + 32768) * (c + 32768)" "0 \<le> (32767 - a) * (32767 - c)"
    using assms by simp_all
  then have "- 32768 * (a + c) - 32768 * 32768 \<le> a * c" "32767 * (a + c) - 32767 * 32767 \<le> a * c"
    by (simp_all add: algebra_simps)
  then show "- (32768 * 32767) \<le> a * c"
    by (cases "0 \<le> a + c") simp_all
  show "a * c \<le> 32768 * 32767" if "\<not> (a = - 32768 \<and> c = - 32768)"
  proof (cases "a = - 32768")
    case True
    with that assms have "- 32767 \<le> c"
      by simp
    with True show ?thesis
      by simp
  next
    case False
    with assms have "\<bar>a\<bar> \<le> 32767" "\<bar>c\<bar> \<le> 32768"
      by simp_all
    then have "\<bar>a\<bar> * \<bar>c\<bar> \<le> 32767 * 32768"
      by (intro mult_mono) simp_all
    then show ?thesis
      by (simp add: abs_mult [symmetric])
  qed
qed

lemma sint16_range: "- 32768 \<le> sint (a :: 16 word)" "sint (a :: 16 word) \<le> 32767"
  using sint_range_size [of a] by (simp_all add: word_size)

lemma sint16_min: "sint (a :: 16 word) = - 32768 \<longleftrightarrow> a = - 32768"
proof
  assume "sint a = - 32768"
  then have "sint a = sint (- 32768 :: 16 word)"
    by simp
  then show "a = - 32768"
    by (rule signed_word_eqI)
next
  assume "a = - 32768"
  then show "sint a = - 32768"
    by simp
qed

lemma rotate_intermediates:
  fixes v r :: vec2
  defines "a \<equiv> sint (v2x v)" and "b \<equiv> sint (v2y v)" and "c \<equiv> sint (v2x r)" and "d \<equiv> sint (v2y r)"
  shows "sint ((scast (v2x v) :: int32_t) * scast (v2x r) - scast (v2y v) * scast (v2y r))
           = a * c - b * d"
    and "\<not> (v2x v = - 32768 \<and> v2y v = - 32768 \<and> v2x r = - 32768 \<and> v2y r = - 32768) \<Longrightarrow>
         sint ((scast (v2x v) :: int32_t) * scast (v2y r) + scast (v2y v) * scast (v2x r))
           = a * d + b * c"
proof -
  note ra = sint16_range [of "v2x v", folded a_def] and rb = sint16_range [of "v2y v", folded b_def]
    and rc = sint16_range [of "v2x r", folded c_def] and rd = sint16_range [of "v2y r", folded d_def]
  note ac = prod16_bounds [OF ra rc] and bd = prod16_bounds [OF rb rd]
    and ad = prod16_bounds [OF ra rd] and bc = prod16_bounds [OF rb rc]
  have "- 2147483648 \<le> a * c - b * d" "a * c - b * d < 2147483648"
    using ac(1,2) bd(1,2) by linarith+
  then have "signed_take_bit 31 (a * c - b * d) = a * c - b * d"
    by (simp add: signed_take_bit_int_eq_self)
  then show "sint ((scast (v2x v) :: int32_t) * scast (v2x r) - scast (v2y v) * scast (v2y r))
           = a * c - b * d"
    by (simp only: scast_16_32 wi_homs sint_wi32 a_def b_def c_def d_def)
  show "sint ((scast (v2x v) :: int32_t) * scast (v2y r) + scast (v2y v) * scast (v2x r))
           = a * d + b * c"
    if "\<not> (v2x v = - 32768 \<and> v2y v = - 32768 \<and> v2x r = - 32768 \<and> v2y r = - 32768)"
  proof -
    from that have "\<not> (a = - 32768 \<and> d = - 32768) \<or> \<not> (b = - 32768 \<and> c = - 32768)"
      by (auto simp add: a_def b_def c_def d_def sint16_min)
    then have "a * d + b * c < 2147483648"
      using ad(2,3) bc(2,3) by (elim disjE) linarith+
    moreover have "- 2147483648 \<le> a * d + b * c"
      using ad(1) bc(1) by linarith
    ultimately have "signed_take_bit 31 (a * d + b * c) = a * d + b * c"
      by (simp add: signed_take_bit_int_eq_self)
    then show ?thesis
      by (simp only: scast_16_32 wi_homs sint_wi32 a_def b_def c_def d_def)
  qed
qed

lemma rotate_extreme:
  "rotate_vec2 (vec2 (- 32768) (- 32768)) (vec2 (- 32768) (- 32768)) = vec2 0 0"
  by (simp add: rotate_vec2_def)

section \<open>The vertex loop and the edge loop\<close>

lemma shift12_bound:
  fixes E :: int
  assumes "\<bar>E\<bar> \<le> 5120 * 4096"
  shows "- 5120 \<le> drop_bit 12 E" and "drop_bit 12 E \<le> 5120"
  using assms by (simp_all add: drop_bit_eq_div)

lemma vertex_core:
  assumes rot: "at_most_unit rot" and loc: "at_most_unit loc" and v: "vertex_ok v"
  defines "x \<equiv> drop_bit 12 (sint (v3x v) * sint (v2x rot) - sint (v3z v) * sint (v2y rot))
                 + sint (v2y loc)"
    and "z \<equiv> drop_bit 12 (sint (v3x v) * sint (v2y rot) + sint (v3z v) * sint (v2x rot))
                 + sint (v2x loc)"
    and "y \<equiv> sint (v3y v) + drop_bit 2 (sint (v2x loc))"
  shows "sint (vertex_x rot loc v) = x" and "sint (vertex_y loc v) = y"
    and "sint (vertex_z rot loc v) = z"
    and "sint (vertex_z_prime rot loc v) = drop_bit 6 (z + 0x2a00)"
    and "24 \<le> drop_bit 6 (z + 0x2a00)" and "drop_bit 6 (z + 0x2a00) \<le> 312"
    and "\<bar>x\<bar> \<le> 9216" and "\<bar>y\<bar> \<le> 6144"
proof -
  have v1: "sint (v3x v) * sint (v3x v) + sint (v3z v) * sint (v3z v) \<le> 5120 * 5120"
    and v2: "- 5120 \<le> sint (v3y v)" and v3: "sint (v3y v) \<le> 2048"
    using v by (simp_all add: vertex_ok_def)
  have r: "sint (v2x rot) * sint (v2x rot) + sint (v2y rot) * sint (v2y rot) \<le> 4096 * 4096"
    using rot by (simp add: at_most_unit_def mag2_def)
  have l: "sint (v2x loc) * sint (v2x loc) + sint (v2y loc) * sint (v2y loc) \<le> 4096 * 4096"
    using loc by (simp add: at_most_unit_def mag2_def)
  have lx: "\<bar>sint (v2x loc)\<bar> \<le> 4096" and ly: "\<bar>sint (v2y loc)\<bar> \<le> 4096"
    using component_bound [OF l] by simp_all
  have e1: "\<bar>sint (v3x v) * sint (v2x rot) - sint (v3z v) * sint (v2y rot)\<bar> \<le> 5120 * 4096"
    and e2: "\<bar>sint (v3x v) * sint (v2y rot) + sint (v3z v) * sint (v2x rot)\<bar> \<le> 5120 * 4096"
    using cs_bound [OF v1 r] by simp_all
  show xb: "\<bar>x\<bar> \<le> 9216"
    using shift12_bound [OF e1] ly unfolding x_def by linarith
  have zb: "\<bar>z\<bar> \<le> 9216"
    using shift12_bound [OF e2] lx unfolding z_def by linarith
  have "- 1024 \<le> drop_bit 2 (sint (v2x loc)) \<and> drop_bit 2 (sint (v2x loc)) \<le> 1024"
    using lx by (simp add: drop_bit_eq_div) presburger
  then show yb: "\<bar>y\<bar> \<le> 6144"
    using v2 v3 unfolding y_def by linarith
  show sx: "sint (vertex_x rot loc v) = x"
    using xb by (simp only: vertex_x_int x_def [symmetric]) (simp add: sint_wi16)
  show sz: "sint (vertex_z rot loc v) = z"
    using zb by (simp only: vertex_z_int z_def [symmetric]) (simp add: sint_wi16)
  have "sint (signed_drop_bit 2 (v2x loc)) = drop_bit 2 (sint (v2x loc))"
    by (simp add: sint_signed_drop_bit_eq)
  then show "sint (vertex_y loc v) = y"
    using yb by (simp add: vertex_y_def y_def sint_add16)
  have "sint (vertex_z rot loc v + MESH_DEPTH) = z + 0x2a00"
    using zb sz by (simp add: sint_add16 MESH_DEPTH_def)
  then show "sint (vertex_z_prime rot loc v) = drop_bit 6 (z + 0x2a00)"
    by (simp add: vertex_z_prime_def sint_signed_drop_bit_eq)
  show "24 \<le> drop_bit 6 (z + 0x2a00)" and "drop_bit 6 (z + 0x2a00) \<le> 312"
    using zb by (simp_all add: drop_bit_eq_div)
qed


lemma transform_vertex_spec:
  assumes rot: "at_most_unit rot" and loc: "at_most_unit loc" and v: "vertex_ok v"
  shows "\<exists>p. transform_vertex rot loc v = Inr p
           \<and> ivec2 p = pipeline_spec (ivec2 rot) (ivec2 loc) (ivec3 v)"
proof -
  define x where "x = drop_bit 12 (sint (v3x v) * sint (v2x rot) - sint (v3z v) * sint (v2y rot))
                 + sint (v2y loc)"
  define z where "z = drop_bit 12 (sint (v3x v) * sint (v2y rot) + sint (v3z v) * sint (v2x rot))
                 + sint (v2x loc)"
  define y where "y = sint (v3y v) + drop_bit 2 (sint (v2x loc))"
  define z' where "z' = drop_bit 6 (z + 0x2a00)"
  note core = vertex_core [OF rot loc v, folded x_def y_def z_def, folded z'_def]
  have sx: "sint (vertex_x rot loc v) = x" and sy: "sint (vertex_y loc v) = y"
    and sz': "sint (vertex_z_prime rot loc v) = z'"
    and z'pos: "24 \<le> z'" and xb: "\<bar>x\<bar> \<le> 9216" and yb: "\<bar>y\<bar> \<le> 6144"
    using core by simp_all
  have nz: "vertex_z_prime rot loc v \<noteq> 0"
    using sz' z'pos by auto
  have qx: "\<bar>x sdiv z'\<bar> \<le> 9216" and qy: "\<bar>y sdiv z'\<bar> \<le> 6144"
    using sdiv_abs_le [of x z'] sdiv_abs_le [of y z'] xb yb by linarith+
  define p where "p = vec2 (word_of_int (x sdiv z' + 64)) (word_of_int (y sdiv z' + 32))"
  have "transform_vertex rot loc v = Inr p"
    using nz
    by (simp add: transform_vertex_def Let_def v2add_def sdiv16_def sx sy sz' p_def
        SCREEN_WIDTH_def SCREEN_HEIGHT_def)
  moreover have "ivec2 p = (x sdiv z' + 64, y sdiv z' + 32)"
  proof -
    have "sint (word_of_int (x sdiv z' + 64) :: 16 word) = x sdiv z' + 64"
      using qx by (intro sint_wi16) linarith+
    moreover have "sint (word_of_int (y sdiv z' + 32) :: 16 word) = y sdiv z' + 32"
      using qy by (intro sint_wi16) linarith+
    ultimately show ?thesis
      by (simp only: ivec2_def p_def vec2.sel)
  qed
  moreover have "pipeline_spec (ivec2 rot) (ivec2 loc) (ivec3 v) = (x sdiv z' + 64, y sdiv z' + 32)"
    by (simp add: pipeline_spec_def ivec2_def ivec3_def Let_def x_def y_def z_def z'_def)
  ultimately show ?thesis
    by simp
qed

declare transform_verts.simps [simp del] draw_lines.simps [simp del]

lemma mesh_len: "length mesh_verts = NUM_VERTS"
  by (simp add: mesh_verts_def NUM_VERTS_def)

lemma idx_len: "length mesh_indices = NUM_INDICES"
  by (simp add: mesh_indices_def NUM_INDICES_def)

lemma idx_bound: "list_all (\<lambda>k. unat k < NUM_VERTS) mesh_indices"
  by (simp add: mesh_indices_def NUM_VERTS_def)

lemma idx_nth: "i < NUM_INDICES \<Longrightarrow> unat (mesh_indices ! i) < NUM_VERTS"
  using idx_bound by (simp add: list_all_length idx_len)

lemma draw_lines_ok:
  assumes len: "length (screen_verts s) = NUM_VERTS" and ev: "even i"
  shows "\<exists>bb. draw_lines i s = Inr (s\<lparr>back_buffer := back_buffer s @ bb\<rparr>)
            \<and> length bb = (NUM_INDICES - i) div 2"
  using len ev
proof (induction "NUM_INDICES - i" arbitrary: i s rule: less_induct)
  case less
  show ?case
  proof (cases "i < NUM_INDICES")
    case False
    then have "draw_lines i s = Inr (s\<lparr>back_buffer := back_buffer s @ []\<rparr>)"
      by (subst draw_lines.simps) simp
    moreover from False have "(NUM_INDICES - i) div 2 = 0"
      by simp
    ultimately show ?thesis
      by (metis list.size(3))
  next
    case True
    with less.prems(2) have i1: "i + 1 < NUM_INDICES"
      by (auto simp add: NUM_INDICES_def elim!: evenE)
    define l where "l = (v2x (screen_verts s ! unat (mesh_indices ! i)),
                         v2y (screen_verts s ! unat (mesh_indices ! i)),
                         v2x (screen_verts s ! unat (mesh_indices ! (i + 1))),
                         v2y (screen_verts s ! unat (mesh_indices ! (i + 1))))"
    define s1 where "s1 = s\<lparr>back_buffer := back_buffer s @ [l]\<rparr>"
    have unfold: "draw_lines i s = draw_lines (i + 2) s1"
      using True i1 idx_nth [OF True] idx_nth [OF i1] less.prems(1)
      by (subst draw_lines.simps) (simp add: Let_def idx_len s1_def l_def)
    have "NUM_INDICES - (i + 2) < NUM_INDICES - i"
      using True by simp
    moreover have "length (screen_verts s1) = NUM_VERTS"
      using less.prems(1) by (simp add: s1_def)
    moreover have "even (i + 2)"
      using less.prems(2) by simp
    ultimately obtain bb where bb: "draw_lines (i + 2) s1 = Inr (s1\<lparr>back_buffer := back_buffer s1 @ bb\<rparr>)"
        "length bb = (NUM_INDICES - (i + 2)) div 2"
      using less.hyps by blast
    have "draw_lines i s = Inr (s\<lparr>back_buffer := back_buffer s @ (l # bb)\<rparr>)"
      using unfold bb(1) by (simp add: s1_def)
    moreover have "length (l # bb) = (NUM_INDICES - i) div 2"
      using bb(2) i1 by simp
    ultimately show ?thesis
      by blast
  qed
qed


lemma transform_verts_ok:
  assumes len: "length (screen_verts s) = NUM_VERTS"
    and ok: "\<And>j. j < NUM_VERTS \<Longrightarrow>
               transform_vertex (rotation s) (location s) (mesh_verts ! j) = Inr (p j)"
    and i: "i \<le> NUM_VERTS"
  shows "transform_verts i s =
           Inr (s\<lparr>screen_verts := take i (screen_verts s) @ map p [i..<NUM_VERTS]\<rparr>)"
  using len ok i
proof (induction "NUM_VERTS - i" arbitrary: i s rule: less_induct)
  case less
  show ?case
  proof (cases "i < NUM_VERTS")
    case False
    with less.prems(3) have "i = NUM_VERTS"
      by simp
    then show ?thesis
      using less.prems(1) by (subst transform_verts.simps) simp
  next
    case True
    define s1 where "s1 = s\<lparr>screen_verts := (screen_verts s)[i := p i]\<rparr>"
    have unfold: "transform_verts i s = transform_verts (i + 1) s1"
      using True less.prems(1) less.prems(2) [OF True]
      by (subst transform_verts.simps) (simp add: mesh_len s1_def)
    have "transform_verts (i + 1) s1 =
            Inr (s1\<lparr>screen_verts := take (i + 1) (screen_verts s1) @ map p [i + 1..<NUM_VERTS]\<rparr>)"
    proof (rule less.hyps)
      show "NUM_VERTS - (i + 1) < NUM_VERTS - i"
        using True by simp
      show "length (screen_verts s1) = NUM_VERTS"
        using less.prems(1) by (simp add: s1_def)
      show "transform_vertex (rotation s1) (location s1) (mesh_verts ! j) = Inr (p j)"
        if "j < NUM_VERTS" for j
        using less.prems(2) [OF that] by (simp add: s1_def)
      show "i + 1 \<le> NUM_VERTS"
        using True by simp
    qed
    moreover have "take (i + 1) (screen_verts s1) = take i (screen_verts s) @ [p i]"
      using True less.prems(1) by (simp add: s1_def take_Suc_conv_app_nth)
    moreover have "[i..<NUM_VERTS] = i # [i + 1..<NUM_VERTS]"
      using True by (simp add: upt_conv_Cons)
    ultimately show ?thesis
      using unfold by (simp add: s1_def)
  qed
qed

section \<open>The values of the accumulators\<close>

lemma all_orbit_numeral:
  "all_orbit P inc v (numeral k) = (P v \<and> all_orbit P inc (rotate_vec2 v inc) (pred_numeral k))"
  by (simp add: numeral_eq_Suc)

lemma rotate_funpow_swap:
  "rotate_vec2 (((\<lambda>u. rotate_vec2 u inc) ^^ k) v) inc
     = ((\<lambda>u. rotate_vec2 u inc) ^^ k) (rotate_vec2 v inc)"
  using funpow_swap1 [of "\<lambda>u. rotate_vec2 u inc" k v] by simp

lemma all_orbit_iff:
  "all_orbit P inc v n \<longleftrightarrow> (\<forall>k<n. P (((\<lambda>u. rotate_vec2 u inc) ^^ k) v))"
proof (induction n arbitrary: v)
  case 0
  show ?case by simp
next
  case (Suc n)
  show ?case
    by (simp add: Suc.IH All_less_Suc2 rotate_funpow_swap) 
qed

lemma orbit_funpow: "orbit inc k = ((\<lambda>u. rotate_vec2 u inc) ^^ k) (vec2 0x1000 0)"
  by (induction k) simp_all

lemma spin_check: "all_orbit at_most_unit rot0 (vec2 0x1000 0) 120"
  by (simp add: all_orbit_numeral rotate_vec2_def rot0_def at_most_unit_def mag2_def)

lemma sway_check: "all_orbit at_most_unit loc0 (vec2 0x1000 0) 360"
  by (simp add: all_orbit_numeral rotate_vec2_def loc0_def at_most_unit_def mag2_def)

lemma spin_unit: "k < 120 \<Longrightarrow> at_most_unit (spin_state k)"
  using spin_check by (simp add: all_orbit_iff spin_state_def orbit_funpow)

lemma sway_unit: "k < 360 \<Longrightarrow> at_most_unit (sway_state k)"
  using sway_check by (simp add: all_orbit_iff sway_state_def orbit_funpow)

lemma mesh_ok: "list_all vertex_ok mesh_verts"
  by (simp add: mesh_verts_def vertex_ok_def)

lemma mesh_nth_ok: "i < NUM_VERTS \<Longrightarrow> vertex_ok (mesh_verts ! i)"
  using mesh_ok by (simp add: list_all_length mesh_len)

section \<open>One iteration of the frame driver\<close>

lemma unat_succ16: "unat (c :: 16 word) < 65535 \<Longrightarrow> unat (c + 1) = unat c + 1"
  by (simp add: unat_word_ariths)

lemma advance_rotation:
  assumes "unat (rotation_counter s) < 120"
  shows "rotation_counter (advance s) =
           (if unat (rotation_counter s) + 1 = 120 then 0 else rotation_counter s + 1)"
    and "rotation (advance s) =
           (if unat (rotation_counter s) + 1 = 120 then vec2 0x1000 0
            else rotate_vec2 (rotation s) rot0)"
proof -
  have u: "unat (rotation_counter s + 1) = unat (rotation_counter s) + 1"
    using assms by (intro unat_succ16) simp
  have "(120 \<le> rotation_counter s + 1) = (unat (rotation_counter s) + 1 = 120)"
    using assms by (auto simp add: word_le_nat_alt u)
  then show "rotation_counter (advance s) =
           (if unat (rotation_counter s) + 1 = 120 then 0 else rotation_counter s + 1)"
    and "rotation (advance s) =
           (if unat (rotation_counter s) + 1 = 120 then vec2 0x1000 0
            else rotate_vec2 (rotation s) rot0)"
    by (simp_all add: advance_def Let_def)
qed

lemma advance_location:
  assumes "unat (location_counter s) < 360"
  shows "location_counter (advance s) =
           (if unat (location_counter s) + 1 = 360 then 0 else location_counter s + 1)"
    and "location (advance s) =
           (if unat (location_counter s) + 1 = 360 then vec2 0x1000 0
            else rotate_vec2 (location s) loc0)"
proof -
  have u: "unat (location_counter s + 1) = unat (location_counter s) + 1"
    using assms by (intro unat_succ16) simp
  have "(360 \<le> location_counter s + 1) = (unat (location_counter s) + 1 = 360)"
    using assms by (auto simp add: word_le_nat_alt u)
  then show "location_counter (advance s) =
           (if unat (location_counter s) + 1 = 360 then 0 else location_counter s + 1)"
    and "location (advance s) =
           (if unat (location_counter s) + 1 = 360 then vec2 0x1000 0
            else rotate_vec2 (location s) loc0)"
    by (simp_all add: advance_def Let_def)
qed

lemma advance_other:
  "screen_verts (advance s) = screen_verts s" "fps_counter (advance s) = fps_counter s"
  "fps_display (advance s) = fps_display s" "TCNT1 (advance s) = TCNT1 s"
  "serial_out (advance s) = serial_out s" "back_buffer (advance s) = back_buffer s"
  "presented (advance s) = presented s"
  by (simp_all add: advance_def Let_def)

lemma advance_ok:
  assumes "accumulators_ok s"
  shows "accumulators_ok (advance s)"
    and "unat (rotation_counter (advance s)) = (unat (rotation_counter s) + 1) mod 120"
    and "unat (location_counter (advance s)) = (unat (location_counter s) + 1) mod 360"
proof -
  have rc: "unat (rotation_counter s) < 120" and lc: "unat (location_counter s) < 360"
    and r: "rotation s = spin_state (unat (rotation_counter s))"
    and l: "location s = sway_state (unat (location_counter s))"
    and len: "length (screen_verts s) = NUM_VERTS"
    using assms by (simp_all add: accumulators_ok_def)
  have ur: "unat (rotation_counter s + 1) = unat (rotation_counter s) + 1"
    using rc by (intro unat_succ16) simp
  have ul: "unat (location_counter s + 1) = unat (location_counter s) + 1"
    using lc by (intro unat_succ16) simp
  show c1: "unat (rotation_counter (advance s)) = (unat (rotation_counter s) + 1) mod 120"
    using rc by (simp add: advance_rotation [OF rc] ur)
  show c2: "unat (location_counter (advance s)) = (unat (location_counter s) + 1) mod 360"
    using lc by (simp add: advance_location [OF lc] ul)
  have "rotation (advance s) = spin_state (unat (rotation_counter (advance s)))"
    using rc by (simp add: advance_rotation [OF rc] ur r spin_state_def)
  moreover have "location (advance s) = sway_state (unat (location_counter (advance s)))"
    using lc by (simp add: advance_location [OF lc] ul l sway_state_def)
  ultimately show "accumulators_ok (advance s)"
    using c1 c2 len by (simp add: accumulators_ok_def advance_other)
qed


lemma pipeline_pass:
  assumes len: "length (screen_verts s) = NUM_VERTS"
    and rot: "at_most_unit (rotation s)" and loc: "at_most_unit (location s)"
  shows "\<exists>sv. transform_verts 0 s = Inr (s\<lparr>screen_verts := sv\<rparr>) \<and> length sv = NUM_VERTS
           \<and> (\<forall>i<NUM_VERTS. ivec2 (sv ! i) =
                  pipeline_spec (ivec2 (rotation s)) (ivec2 (location s)) (ivec3 (mesh_verts ! i)))"
proof -
  define p where "p j = projr (transform_vertex (rotation s) (location s) (mesh_verts ! j))" for j
  have each: "transform_vertex (rotation s) (location s) (mesh_verts ! j) = Inr (p j)
      \<and> ivec2 (p j) = pipeline_spec (ivec2 (rotation s)) (ivec2 (location s)) (ivec3 (mesh_verts ! j))"
    if "j < NUM_VERTS" for j
    using transform_vertex_spec [OF rot loc mesh_nth_ok [OF that]] by (auto simp add: p_def)
  have "transform_verts 0 s =
          Inr (s\<lparr>screen_verts := take 0 (screen_verts s) @ map p [0..<NUM_VERTS]\<rparr>)"
    by (rule transform_verts_ok [OF len]) (simp_all add: each)
  then have "transform_verts 0 s = Inr (s\<lparr>screen_verts := map p [0..<NUM_VERTS]\<rparr>)"
    by simp
  moreover have "length (map p [0..<NUM_VERTS]) = NUM_VERTS"
    by simp
  moreover have "\<forall>i<NUM_VERTS. ivec2 (map p [0..<NUM_VERTS] ! i) =
      pipeline_spec (ivec2 (rotation s)) (ivec2 (location s)) (ivec3 (mesh_verts ! i))"
    using each by simp
  ultimately show ?thesis
    by blast
qed

lemma loop_ok:
  assumes ok: "accumulators_ok s"
  shows "\<exists>sv bb. loop s =
            Inr ((advance s)\<lparr>screen_verts := sv, back_buffer := bb,
                   presented := presented s @ [bb], fps_counter := fps_counter s + 1\<rparr>)
          \<and> length sv = NUM_VERTS
          \<and> (\<forall>i<NUM_VERTS. ivec2 (sv ! i) =
                pipeline_spec (ivec2 (rotation (advance s))) (ivec2 (location (advance s)))
                  (ivec3 (mesh_verts ! i)))"
proof -
  have a: "accumulators_ok (advance s)"
    using advance_ok(1) [OF ok] .
  then have len: "length (screen_verts (advance s)) = NUM_VERTS"
    and rot: "at_most_unit (rotation (advance s))"
    and loc: "at_most_unit (location (advance s))"
    by (simp_all add: accumulators_ok_def spin_unit sway_unit)
  from pipeline_pass [OF len rot loc] obtain sv
    where tv: "transform_verts 0 (advance s) = Inr ((advance s)\<lparr>screen_verts := sv\<rparr>)"
      and lsv: "length sv = NUM_VERTS"
      and spec: "\<forall>i<NUM_VERTS. ivec2 (sv ! i) =
                pipeline_spec (ivec2 (rotation (advance s))) (ivec2 (location (advance s)))
                  (ivec3 (mesh_verts ! i))"
    by blast
  define s1 where "s1 = clearDisplay ((advance s)\<lparr>screen_verts := sv\<rparr>)"
  have "length (screen_verts s1) = NUM_VERTS"
    using lsv by (simp add: s1_def clearDisplay_def)
  from draw_lines_ok [OF this, of 0] obtain bb
    where dl: "draw_lines 0 s1 = Inr (s1\<lparr>back_buffer := back_buffer s1 @ bb\<rparr>)"
    by auto
  have "loop s =
            Inr ((advance s)\<lparr>screen_verts := sv, back_buffer := bb,
                   presented := presented s @ [bb], fps_counter := fps_counter s + 1\<rparr>)"
    using tv dl
    by (simp add: loop_def s1_def [symmetric] Let_def display_def)
       (simp add: s1_def clearDisplay_def advance_other)
  with lsv spec show ?thesis
    by blast
qed

section \<open>Runs from the initial state\<close>

lemma init_ok: "accumulators_ok init_state"
  by (simp add: accumulators_ok_def init_state_def spin_state_def sway_state_def)

lemma isr_ok: "accumulators_ok s \<Longrightarrow> accumulators_ok (ISR_TIMER1_COMPA s)"
  by (simp add: accumulators_ok_def ISR_TIMER1_COMPA_def)

lemma loop_inv:
  assumes ok: "accumulators_ok s"
  shows "\<exists>s'. loop s = Inr s' \<and> accumulators_ok s'
           \<and> rotation s' = rotation (advance s) \<and> location s' = location (advance s)
           \<and> rotation_counter s' = rotation_counter (advance s)
           \<and> location_counter s' = location_counter (advance s)
           \<and> fps_counter s' = fps_counter s + 1 \<and> fps_display s' = fps_display s"
proof -
  from loop_ok [OF ok] obtain sv bb where l: "loop s =
            Inr ((advance s)\<lparr>screen_verts := sv, back_buffer := bb,
                   presented := presented s @ [bb], fps_counter := fps_counter s + 1\<rparr>)"
    and len: "length sv = NUM_VERTS"
    by blast
  have "accumulators_ok ((advance s)\<lparr>screen_verts := sv, back_buffer := bb,
                   presented := presented s @ [bb], fps_counter := fps_counter s + 1\<rparr>)"
    using advance_ok(1) [OF ok] len by (simp add: accumulators_ok_def)
  with l show ?thesis
    by (simp add: advance_other)
qed

lemma run_append: "run (es @ fs) s = (case run es s of Inl f \<Rightarrow> Inl f | Inr s' \<Rightarrow> run fs s')"
  by (induction es arbitrary: s) (simp_all split: sum.splits)

lemma run_frames:
  assumes ok: "accumulators_ok s"
  shows "\<exists>s'. run (replicate k Frame) s = Inr s' \<and> accumulators_ok s'
           \<and> unat (rotation_counter s') = (unat (rotation_counter s) + k) mod 120
           \<and> unat (location_counter s') = (unat (location_counter s) + k) mod 360
           \<and> fps_counter s' = fps_counter s + of_nat k \<and> fps_display s' = fps_display s"
  using ok
proof (induction k arbitrary: s)
  case 0
  then show ?case
    by (simp add: accumulators_ok_def)
next
  case (Suc k)
  from loop_inv [OF Suc.prems] obtain s1 where l: "loop s = Inr s1" and ok1: "accumulators_ok s1"
    and rc: "rotation_counter s1 = rotation_counter (advance s)"
    and lc: "location_counter s1 = location_counter (advance s)"
    and fc: "fps_counter s1 = fps_counter s + 1" and fd: "fps_display s1 = fps_display s"
    by blast
  from Suc.IH [OF ok1] obtain s' where r: "run (replicate k Frame) s1 = Inr s'"
    and ok': "accumulators_ok s'"
    and rc': "unat (rotation_counter s') = (unat (rotation_counter s1) + k) mod 120"
    and lc': "unat (location_counter s') = (unat (location_counter s1) + k) mod 360"
    and fc': "fps_counter s' = fps_counter s1 + of_nat k" and fd': "fps_display s' = fps_display s1"
    by blast
  have "run (replicate (Suc k) Frame) s = Inr s'"
    using l r by simp
  moreover have "unat (rotation_counter s') = (unat (rotation_counter s) + Suc k) mod 120"
    using rc' by (simp add: rc advance_ok(2) [OF Suc.prems] mod_add_left_eq)
  moreover have "unat (location_counter s') = (unat (location_counter s) + Suc k) mod 360"
    using lc' by (simp add: lc advance_ok(3) [OF Suc.prems] mod_add_left_eq)
  moreover have "fps_counter s' = fps_counter s + of_nat (Suc k)"
    using fc' fc by simp
  ultimately show ?case
    using ok' fd fd' by simp
qed

lemma run_ok:
  assumes ok: "accumulators_ok s"
  shows "\<exists>s'. run es s = Inr s' \<and> accumulators_ok s'"
  using ok
proof (induction es arbitrary: s)
  case Nil
  then show ?case by simp
next
  case (Cons e es)
  show ?case
  proof (cases e)
    case Frame
    from loop_inv [OF Cons.prems] obtain s1 where "loop s = Inr s1" "accumulators_ok s1"
      by blast
    with Cons.IH [of s1] Frame show ?thesis
      by simp
  next
    case Sample
    with Cons.IH [OF isr_ok [OF Cons.prems]] show ?thesis
      by simp
  qed
qed

lemma unat_of_nat8: "unat (of_nat k :: 8 word) = k mod 256"
  by (simp add: unat_of_nat)

lemma run_from_ok:
  assumes ok: "accumulators_ok s"
  shows "\<exists>s'. run (es @ Sample # replicate k Frame) s = Inr s' \<and> fps_counter s' = of_nat k"
proof -
  from run_ok [OF ok, of es] obtain s1 where r1: "run es s = Inr s1" and ok1: "accumulators_ok s1"
    by blast
  from run_frames [OF isr_ok [OF ok1], of k] obtain s2
    where r2: "run (replicate k Frame) (ISR_TIMER1_COMPA s1) = Inr s2"
      and fc: "fps_counter s2 = fps_counter (ISR_TIMER1_COMPA s1) + of_nat k"
    by blast
  have "run (es @ Sample # replicate k Frame) s = Inr s2"
    using r1 r2 by (simp add: run_append)
  moreover have "fps_counter s2 = of_nat k"
    using fc by (simp add: ISR_TIMER1_COMPA_def)
  ultimately show ?thesis
    by blast
qed

section \<open>The sampler and the frame driver\<close>

lemma with_fps_fields:
  "rotation (with_fps c d t out s) = rotation s" "location (with_fps c d t out s) = location s"
  "screen_verts (with_fps c d t out s) = screen_verts s"
  "back_buffer (with_fps c d t out s) = back_buffer s"
  "(with_fps c d t out s)\<lparr>screen_verts := sv\<rparr> = with_fps c d t out (s\<lparr>screen_verts := sv\<rparr>)"
  "(with_fps c d t out s)\<lparr>back_buffer := bb\<rparr> = with_fps c d t out (s\<lparr>back_buffer := bb\<rparr>)"
  by (simp_all add: with_fps_def)

lemma transform_verts_with_fps:
  "transform_verts i (with_fps c d t out s) = map_sum id (with_fps c d t out) (transform_verts i s)"
proof (induction "NUM_VERTS - i" arbitrary: i s rule: less_induct)
  case less
  show ?case
  proof (cases "i < NUM_VERTS")
    case False
    then show ?thesis
      by (subst (1 2) transform_verts.simps) simp
  next
    case True
    then have "NUM_VERTS - (i + 1) < NUM_VERTS - i"
      by simp
    note ih = less.hyps [OF this, simplified]
    show ?thesis
      by (subst (1 2) transform_verts.simps)
         (simp add: with_fps_fields ih split: sum.splits)
  qed
qed

lemma draw_lines_with_fps:
  "draw_lines i (with_fps c d t out s) = map_sum id (with_fps c d t out) (draw_lines i s)"
proof (induction "NUM_INDICES - i" arbitrary: i s rule: less_induct)
  case less
  show ?case
  proof (cases "i < NUM_INDICES")
    case False
    then show ?thesis
      by (subst (1 2) draw_lines.simps) simp
  next
    case True
    then have "NUM_INDICES - (i + 2) < NUM_INDICES - i"
      by simp
    note ih = less.hyps [OF this, simplified]
    show ?thesis
      by (subst (1 2) draw_lines.simps)
         (simp add: with_fps_fields ih Let_def)
  qed
qed

lemma loop_with_fps:
  "loop (with_fps c d t out s) = map_sum id (with_fps (c + 1) d t out) (loop s)"
proof -
  have a: "advance (with_fps c d t out s) = with_fps c d t out (advance s)"
    by (simp add: advance_def Let_def with_fps_def)
  have b: "clearDisplay (with_fps c d t out u) = with_fps c d t out (clearDisplay u)" for u
    by (simp add: clearDisplay_def with_fps_def)
  show ?thesis
    by (simp add: loop_def a b transform_verts_with_fps draw_lines_with_fps Let_def
          split: sum.splits)
       (simp add: with_fps_def display_def)
qed

lemma view_with_fps: "render_view (with_fps c d t out s) = render_view s"
  by (simp add: render_view_def with_fps_def)

lemma view_eq:
  assumes "render_view s = render_view u"
  shows "u = with_fps (fps_counter u) (fps_display u) (TCNT1 u) (serial_out u) s"
  using assms by (cases s, cases u) (simp add: render_view_def with_fps_def)

lemma loop_view:
  assumes "render_view s = render_view u"
  shows "map_sum id render_view (loop s) = map_sum id render_view (loop u)"
proof -
  have "loop u = map_sum id (with_fps (fps_counter u + 1) (fps_display u) (TCNT1 u) (serial_out u)) (loop s)"
    by (subst view_eq [OF assms]) (rule loop_with_fps)
  then show ?thesis
    by (cases "loop s") (simp_all add: view_with_fps)
qed

lemma isr_view: "render_view (ISR_TIMER1_COMPA s) = render_view s"
  by (simp add: render_view_def ISR_TIMER1_COMPA_def)

lemma run_view:
  assumes "render_view s = render_view u"
  shows "map_sum id render_view (run es s) = map_sum id render_view (run (frames_only es) u)"
  using assms
proof (induction es arbitrary: s u)
  case Nil
  then show ?case
    by (simp add: frames_only_def)
next
  case (Cons e es)
  show ?case
  proof (cases e)
    case Sample
    have "render_view (ISR_TIMER1_COMPA s) = render_view u"
      using Cons.prems by (simp add: isr_view)
    from Cons.IH [OF this] Sample show ?thesis
      by (simp add: frames_only_def)
  next
    case Frame
    note lv = loop_view [OF Cons.prems]
    show ?thesis
    proof (cases "loop s")
      case (Inl f)
      with lv have "loop u = Inl f"
        by (cases "loop u") simp_all
      with Inl Frame show ?thesis
        by (simp add: frames_only_def)
    next
      case (Inr s1)
      with lv obtain u1 where u1: "loop u = Inr u1" and v: "render_view s1 = render_view u1"
        by (cases "loop u") simp_all
      from Cons.IH [OF v] Inr u1 Frame show ?thesis
        by (simp add: frames_only_def)
    qed
  qed
qed

section \<open>Composing two rotations\<close>

lemma sum_abs_bound:
  fixes a b :: int
  assumes "a * a + b * b \<le> 4097 * 4097"
  shows "\<bar>a\<bar> + \<bar>b\<bar> \<le> 5794"
proof (rule ccontr)
  assume "\<not> \<bar>a\<bar> + \<bar>b\<bar> \<le> 5794"
  then have t: "5795 \<le> \<bar>a\<bar> + \<bar>b\<bar>"
    by simp
  have "5795 * 5795 \<le> (\<bar>a\<bar> + \<bar>b\<bar>) * (\<bar>a\<bar> + \<bar>b\<bar>)"
    using t by (intro mult_mono) simp_all
  moreover have "0 \<le> (\<bar>a\<bar> - \<bar>b\<bar>) * (\<bar>a\<bar> - \<bar>b\<bar>)"
    by simp
  then have "2 * (\<bar>a\<bar> * \<bar>b\<bar>) \<le> \<bar>a\<bar> * \<bar>a\<bar> + \<bar>b\<bar> * \<bar>b\<bar>"
    by (simp add: algebra_simps)
  then have "(\<bar>a\<bar> + \<bar>b\<bar>) * (\<bar>a\<bar> + \<bar>b\<bar>) \<le> 2 * (a * a + b * b)"
    by (simp add: algebra_simps)
  ultimately show False
    using assms by simp
qed

lemma mixed_bound:
  fixes v1 v2 f1 f2 :: int
  assumes v: "\<bar>v1\<bar> + \<bar>v2\<bar> \<le> 5794"
    and f1: "0 \<le> f1" "f1 \<le> 4095" and f2: "0 \<le> f2" "f2 \<le> 4095"
  shows "\<bar>v1 * f1 - v2 * f2\<bar> \<le> 4095 * 5794" and "\<bar>v1 * f2 + v2 * f1\<bar> \<le> 4095 * 5794"
proof -
  have a: "\<bar>v1 * f1\<bar> \<le> \<bar>v1\<bar> * 4095" "\<bar>v2 * f2\<bar> \<le> \<bar>v2\<bar> * 4095"
    "\<bar>v1 * f2\<bar> \<le> \<bar>v1\<bar> * 4095" "\<bar>v2 * f1\<bar> \<le> \<bar>v2\<bar> * 4095"
    using f1 f2 by (simp_all add: abs_mult mult_left_mono)
  show "\<bar>v1 * f1 - v2 * f2\<bar> \<le> 4095 * 5794"
    using a(1,2) v by linarith
  show "\<bar>v1 * f2 + v2 * f1\<bar> \<le> 4095 * 5794"
    using a(3,4) v by linarith
qed

lemma div_close:
  fixes L R :: int
  assumes "\<bar>4096 * (L - R)\<bar> \<le> 2 * (4095 * 5794)"
  shows "\<bar>L div 4096 - R div 4096\<bar> \<le> 3"
proof -
  have "4096 * (L - R) \<le> 47452860" and "4096 * (R - L) \<le> 47452860"
    using assms by (simp_all add: abs_le_iff algebra_simps)
  then have "L \<le> R + 3 * 4096" and "R \<le> L + 3 * 4096"
    by simp_all
  then have "L div 4096 \<le> (R + 3 * 4096) div 4096" and "R div 4096 \<le> (L + 3 * 4096) div 4096"
    by (simp_all only: zdiv_mono1 zero_less_numeral)
  moreover have "(R + 3 * 4096) div 4096 = R div 4096 + 3" and "(L + 3 * 4096) div 4096 = L div 4096 + 3"
    by simp_all
  ultimately show ?thesis
    by linarith
qed


lemma assoc_core:
  fixes v1 v2 a1 a2 b1 b2 :: int
  assumes v: "\<bar>v1\<bar> + \<bar>v2\<bar> \<le> 5794" and b: "\<bar>b1\<bar> + \<bar>b2\<bar> \<le> 5794"
  defines "p1 \<equiv> (v1 * a1 - v2 * a2) div 4096" and "p2 \<equiv> (v1 * a2 + v2 * a1) div 4096"
    and "q1 \<equiv> (a1 * b1 - a2 * b2) div 4096" and "q2 \<equiv> (a1 * b2 + a2 * b1) div 4096"
  shows "\<bar>(p1 * b1 - p2 * b2) div 4096 - (v1 * q1 - v2 * q2) div 4096\<bar> \<le> 3"
    and "\<bar>(p1 * b2 + p2 * b1) div 4096 - (v1 * q2 + v2 * q1) div 4096\<bar> \<le> 3"
proof -
  define e1 where "e1 = (v1 * a1 - v2 * a2) mod 4096"
  define e2 where "e2 = (v1 * a2 + v2 * a1) mod 4096"
  define f1 where "f1 = (a1 * b1 - a2 * b2) mod 4096"
  define f2 where "f2 = (a1 * b2 + a2 * b1) mod 4096"
  have e1: "0 \<le> e1" "e1 \<le> 4095" and e2: "0 \<le> e2" "e2 \<le> 4095"
    and f1: "0 \<le> f1" "f1 \<le> 4095" and f2: "0 \<le> f2" "f2 \<le> 4095"
    by (simp_all add: e1_def e2_def f1_def f2_def)
  have P1: "4096 * p1 = v1 * a1 - v2 * a2 - e1" and P2: "4096 * p2 = v1 * a2 + v2 * a1 - e2"
    and Q1: "4096 * q1 = a1 * b1 - a2 * b2 - f1" and Q2: "4096 * q2 = a1 * b2 + a2 * b1 - f2"
    by (simp_all add: p1_def p2_def q1_def q2_def e1_def e2_def f1_def f2_def
        minus_mod_eq_mult_div [symmetric])
  have "4096 * ((p1 * b1 - p2 * b2) - (v1 * q1 - v2 * q2))
      = (4096 * p1) * b1 - (4096 * p2) * b2 - (v1 * (4096 * q1) - v2 * (4096 * q2))"
    by (simp add: algebra_simps)
  also have "\<dots> = (v1 * f1 - v2 * f2) - (e1 * b1 - e2 * b2)"
    unfolding P1 P2 Q1 Q2 by (simp add: algebra_simps)
  finally have d1: "4096 * ((p1 * b1 - p2 * b2) - (v1 * q1 - v2 * q2))
      = (v1 * f1 - v2 * f2) - (b1 * e1 - b2 * e2)"
    by (simp add: mult.commute)
  have "4096 * ((p1 * b2 + p2 * b1) - (v1 * q2 + v2 * q1))
      = (4096 * p1) * b2 + (4096 * p2) * b1 - (v1 * (4096 * q2) + v2 * (4096 * q1))"
    by (simp add: algebra_simps)
  also have "\<dots> = (v1 * f2 + v2 * f1) - (e1 * b2 + e2 * b1)"
    unfolding P1 P2 Q1 Q2 by (simp add: algebra_simps)
  finally have d2: "4096 * ((p1 * b2 + p2 * b1) - (v1 * q2 + v2 * q1))
      = (v1 * f2 + v2 * f1) - (b2 * e1 + b1 * e2)"
    by (simp add: mult.commute)
  have b': "\<bar>b2\<bar> + \<bar>b1\<bar> \<le> 5794"
    using b by simp
  have "\<bar>4096 * ((p1 * b1 - p2 * b2) - (v1 * q1 - v2 * q2))\<bar> \<le> 2 * (4095 * 5794)"
    using mixed_bound(1) [OF v f1 f2] mixed_bound(1) [OF b e1 e2] unfolding d1 by linarith
  then show "\<bar>(p1 * b1 - p2 * b2) div 4096 - (v1 * q1 - v2 * q2) div 4096\<bar> \<le> 3"
    by (rule div_close)
  have "\<bar>4096 * ((p1 * b2 + p2 * b1) - (v1 * q2 + v2 * q1))\<bar> \<le> 2 * (4095 * 5794)"
    using mixed_bound(2) [OF v f1 f2] mixed_bound(2) [OF b e1 e2] unfolding d2 by linarith
  then show "\<bar>(p1 * b2 + p2 * b1) div 4096 - (v1 * q2 + v2 * q1) div 4096\<bar> \<le> 3"
    by (rule div_close)
qed


lemma prod_bound:
  fixes a b c d :: int
  assumes "\<bar>a\<bar> \<le> 4099" "\<bar>b\<bar> \<le> 4099" "\<bar>c\<bar> \<le> 4099" "\<bar>d\<bar> \<le> 4099"
  shows "\<bar>a * c - b * d\<bar> \<le> 2 * (4099 * 4099)" and "\<bar>a * d + b * c\<bar> \<le> 2 * (4099 * 4099)"
proof -
  have "\<bar>a * c\<bar> \<le> 4099 * 4099" "\<bar>b * d\<bar> \<le> 4099 * 4099"
    "\<bar>a * d\<bar> \<le> 4099 * 4099" "\<bar>b * c\<bar> \<le> 4099 * 4099"
    using assms by (simp_all only: abs_mult) (intro mult_mono; simp)+
  then show "\<bar>a * c - b * d\<bar> \<le> 2 * (4099 * 4099)"
    and "\<bar>a * d + b * c\<bar> \<le> 2 * (4099 * 4099)"
    by linarith+
qed

lemma rotate_sint:
  assumes "\<bar>sint (v2x v)\<bar> \<le> 4099" "\<bar>sint (v2y v)\<bar> \<le> 4099"
    and "\<bar>sint (v2x r)\<bar> \<le> 4099" "\<bar>sint (v2y r)\<bar> \<le> 4099"
  shows "sint (v2x (rotate_vec2 v r)) =
           (sint (v2x v) * sint (v2x r) - sint (v2y v) * sint (v2y r)) div 4096"
    and "sint (v2y (rotate_vec2 v r)) =
           (sint (v2x v) * sint (v2y r) + sint (v2y v) * sint (v2x r)) div 4096"
proof -
  note pb = prod_bound [OF assms]
  have "- 32768 \<le> (sint (v2x v) * sint (v2x r) - sint (v2y v) * sint (v2y r)) div 4096"
    and "(sint (v2x v) * sint (v2x r) - sint (v2y v) * sint (v2y r)) div 4096 < 32768"
    using pb(1) by simp_all
  then show "sint (v2x (rotate_vec2 v r)) =
           (sint (v2x v) * sint (v2x r) - sint (v2y v) * sint (v2y r)) div 4096"
    by (simp add: rotate_int drop_bit_eq_div sint_wi16)
  have "- 32768 \<le> (sint (v2x v) * sint (v2y r) + sint (v2y v) * sint (v2x r)) div 4096"
    and "(sint (v2x v) * sint (v2y r) + sint (v2y v) * sint (v2x r)) div 4096 < 32768"
    using pb(2) by simp_all
  then show "sint (v2y (rotate_vec2 v r)) =
           (sint (v2x v) * sint (v2y r) + sint (v2y v) * sint (v2x r)) div 4096"
    by (simp add: rotate_int drop_bit_eq_div sint_wi16)
qed

lemma unit_components:
  assumes "mag2 v \<le> 4097 * 4097"
  shows "\<bar>sint (v2x v)\<bar> \<le> 4099" and "\<bar>sint (v2y v)\<bar> \<le> 4099"
    and "\<bar>sint (v2x v)\<bar> + \<bar>sint (v2y v)\<bar> \<le> 5794"
proof -
  have m: "sint (v2x v) * sint (v2x v) + sint (v2y v) * sint (v2y v) \<le> 4097 * 4097"
    using assms by (simp add: mag2_def)
  show "\<bar>sint (v2x v)\<bar> \<le> 4099" and "\<bar>sint (v2y v)\<bar> \<le> 4099"
    using component_bound [OF m] by simp_all
  show "\<bar>sint (v2x v)\<bar> + \<bar>sint (v2y v)\<bar> \<le> 5794"
    using m by (rule sum_abs_bound)
qed

lemma rotate_unit_bound:
  assumes v: "mag2 v \<le> 4097 * 4097" and r: "mag2 r \<le> 4097 * 4097"
  shows "\<bar>sint (v2x (rotate_vec2 v r))\<bar> \<le> 4099" and "\<bar>sint (v2y (rotate_vec2 v r))\<bar> \<le> 4099"
proof -
  have mv: "sint (v2x v) * sint (v2x v) + sint (v2y v) * sint (v2y v) \<le> 4097 * 4097"
    and mr: "sint (v2x r) * sint (v2x r) + sint (v2y r) * sint (v2y r) \<le> 4097 * 4097"
    using v r by (simp_all add: mag2_def)
  note cs = cs_bound [OF mv mr]
  note rs = rotate_sint [OF unit_components(1,2) [OF v] unit_components(1,2) [OF r]]
  show "\<bar>sint (v2x (rotate_vec2 v r))\<bar> \<le> 4099"
    using cs(1) unfolding rs by simp
  show "\<bar>sint (v2y (rotate_vec2 v r))\<bar> \<le> 4099"
    using cs(2) unfolding rs by simp
qed

section \<open>Statement by statement\<close>

lemma run_micro_append:
  "run_micro (ms @ ns) s = (case run_micro ms s of Inl f \<Rightarrow> Inl f | Inr s' \<Rightarrow> run_micro ns s')"
  by (induction ms arbitrary: s) (simp_all split: sum.splits)

lemma loop_as_stmts: "run_micro (map Do loop_stmts) s = loop s"
  by (simp add: loop_stmts_def loop_def Let_def split: sum.splits)

lemma run_expand: "run_micro (concat (map expand es)) s = run es s"
proof (induction es arbitrary: s)
  case Nil
  show ?case by simp
next
  case (Cons e es)
  show ?case
  proof (cases e)
    case Frame
    then show ?thesis
      by (simp add: run_micro_append loop_as_stmts Cons.IH split: sum.splits)
  next
    case Sample
    then show ?thesis
      by (simp add: Cons.IH)
  qed
qed

lemma exec_with_fps:
  "exec st (with_fps c d t out s) =
     map_sum id (with_fps (if st = Count then c + 1 else c) d t out) (exec st s)"
proof (cases st)
  case Advance
  then show ?thesis by (simp add: advance_def Let_def with_fps_def)
next
  case Transform
  then show ?thesis by (simp add: transform_verts_with_fps)
next
  case Clear
  then show ?thesis by (simp add: clearDisplay_def with_fps_def)
next
  case Draw
  then show ?thesis by (simp add: draw_lines_with_fps)
next
  case Present
  then show ?thesis by (simp add: display_def with_fps_def)
next
  case Count
  then show ?thesis by (simp add: with_fps_def)
qed

lemma exec_view:
  assumes "render_view s = render_view u"
  shows "map_sum id render_view (exec st s) = map_sum id render_view (exec st u)"
proof -
  have "exec st u = map_sum id (with_fps (if st = Count then fps_counter u + 1 else fps_counter u)
          (fps_display u) (TCNT1 u) (serial_out u)) (exec st s)"
    by (subst view_eq [OF assms]) (rule exec_with_fps)
  then show ?thesis
    by (cases "exec st s") (simp_all add: view_with_fps)
qed

lemma run_micro_view:
  assumes "render_view s = render_view u"
  shows "map_sum id render_view (run_micro ms s) = map_sum id render_view (run_micro (stmts_only ms) u)"
  using assms
proof (induction ms arbitrary: s u)
  case Nil
  then show ?case
    by (simp add: stmts_only_def)
next
  case (Cons m ms)
  show ?case
  proof (cases m)
    case Fire
    have "render_view (ISR_TIMER1_COMPA s) = render_view u"
      using Cons.prems by (simp add: isr_view)
    from Cons.IH [OF this] Fire show ?thesis
      by (simp add: stmts_only_def)
  next
    case (Do st)
    note ev = exec_view [OF Cons.prems, of st]
    show ?thesis
    proof (cases "exec st s")
      case (Inl f)
      with ev have "exec st u = Inl f"
        by (cases "exec st u") simp_all
      with Inl Do show ?thesis
        by (simp add: stmts_only_def)
    next
      case (Inr s1)
      with ev obtain u1 where u1: "exec st u = Inr u1" and v: "render_view s1 = render_view u1"
        by (cases "exec st u") simp_all
      from Cons.IH [OF v] Inr u1 Do show ?thesis
        by (simp add: stmts_only_def)
    qed
  qed
qed

section \<open>The increments over the reals\<close>

lemma sin_coeffs:
  "sin_coeff (Suc 0) = 1" "sin_coeff 2 = 0" "sin_coeff 3 = - 1 / 6" "sin_coeff 4 = 0"
  "sin_coeff 5 = 1 / 120" "sin_coeff 6 = 0"
  by (simp_all add: sin_coeff_def fact_numeral)

lemma below_7: "{..<7 :: nat} = {0, 1, 2, 3, 4, 5, 6}"
  by auto

lemma sin_poly7:
  fixes x :: real
  shows "(\<Sum>m<7. sin_coeff m * x ^ m) = x - x ^ 3 / 6 + x ^ 5 / 120"
  by (simp add: below_7 sin_coeffs)

lemma fact7: "inverse (fact 7 :: real) = 1 / 5040"
  by (simp add: fact_numeral)

lemma sin_bounds7:
  fixes x :: real
  assumes "0 \<le> x"
  shows "x - x ^ 3 / 6 + x ^ 5 / 120 - x ^ 7 / 5040 \<le> sin x"
    and "sin x \<le> x - x ^ 3 / 6 + x ^ 5 / 120 + x ^ 7 / 5040"
proof -
  have "\<bar>sin x - (\<Sum>m<7. sin_coeff m * x ^ m)\<bar> \<le> inverse (fact 7) * \<bar>x\<bar> ^ 7"
    by (rule Maclaurin_sin_bound)
  moreover have "\<bar>x\<bar> = x"
    using assms by simp
  ultimately have "\<bar>sin x - (x - x ^ 3 / 6 + x ^ 5 / 120)\<bar> \<le> 1 / 5040 * x ^ 7"
    by (simp only: sin_poly7 fact7)
  then show "x - x ^ 3 / 6 + x ^ 5 / 120 - x ^ 7 / 5040 \<le> sin x"
    and "sin x \<le> x - x ^ 3 / 6 + x ^ 5 / 120 + x ^ 7 / 5040"
    by linarith+
qed


lemma pi_sixth_bounds: "52359 / 100000 < pi / 6" "pi / 6 < 52361 / 100000"
proof -
  have in_range: "- (pi / 2) \<le> pi / 6" "pi / 6 \<le> pi / 2"
    by simp_all
  have lo: "- (pi / 2) \<le> (52359 / 100000 :: real)" "(52359 / 100000 :: real) \<le> pi / 2"
    using pi_ge_two by simp_all
  have hi: "- (pi / 2) \<le> (52361 / 100000 :: real)" "(52361 / 100000 :: real) \<le> pi / 2"
    using pi_ge_two by simp_all
  have "sin (52359 / 100000 :: real) < 1 / 2"
    using sin_bounds7(2) [of "52359 / 100000"] by (simp add: power_divide)
  then have "sin (52359 / 100000 :: real) < sin (pi / 6)"
    by (simp add: sin_30)
  then show "52359 / 100000 < pi / 6"
    using sin_mono_less_eq [OF lo in_range] by simp
  have "1 / 2 < sin (52361 / 100000 :: real)"
    using sin_bounds7(1) [of "52361 / 100000"] by (simp add: power_divide)
  then have "sin (pi / 6) < sin (52361 / 100000 :: real)"
    by (simp add: sin_30)
  then show "pi / 6 < 52361 / 100000"
    using sin_mono_less_eq [OF in_range hi] by simp
qed


lemma sin_interval:
  fixes x lo hi :: real
  assumes "0 \<le> lo" "lo \<le> x" "x \<le> hi"
  shows "lo - hi ^ 3 / 6 - hi ^ 7 / 5040 \<le> sin x" and "sin x \<le> hi"
proof -
  have x0: "0 \<le> x"
    using assms by simp
  have "x ^ 3 \<le> hi ^ 3" "x ^ 7 \<le> hi ^ 7" "0 \<le> x ^ 5"
    using assms x0 by (simp_all add: power_mono)
  then show "lo - hi ^ 3 / 6 - hi ^ 7 / 5040 \<le> sin x"
    using sin_bounds7(1) [OF x0] assms(2) by linarith
  show "sin x \<le> hi"
    using sin_x_le_x [OF x0] assms(3) by simp
qed

lemma cos_interval:
  fixes x lo hi :: real
  assumes "0 \<le> lo" "lo \<le> x" "x \<le> hi"
    and l: "0 \<le> lo / 2 - (hi / 2) ^ 3 / 6 - (hi / 2) ^ 7 / 5040"
  shows "1 - hi\<^sup>2 / 2 \<le> cos x"
    and "cos x \<le> 1 - 2 * (lo / 2 - (hi / 2) ^ 3 / 6 - (hi / 2) ^ 7 / 5040)\<^sup>2"
proof -
  have h: "0 \<le> lo / 2" "lo / 2 \<le> x / 2" "x / 2 \<le> hi / 2"
    using assms by simp_all
  note s = sin_interval [OF h]
  have s0: "0 \<le> sin (x / 2)"
    using s(1) l by linarith
  have c: "cos x = 1 - 2 * (sin (x / 2))\<^sup>2"
    using cos_double_sin [of "x / 2"] by simp
  have "(sin (x / 2))\<^sup>2 \<le> (hi / 2)\<^sup>2"
    using s(2) s0 by (intro power_mono) simp_all
  then show "1 - hi\<^sup>2 / 2 \<le> cos x"
    unfolding c by (simp add: power_divide)
  have "(lo / 2 - (hi / 2) ^ 3 / 6 - (hi / 2) ^ 7 / 5040)\<^sup>2 \<le> (sin (x / 2))\<^sup>2"
    using s(1) l by (intro power_mono) simp_all
  then show "cos x \<le> 1 - 2 * (lo / 2 - (hi / 2) ^ 3 / 6 - (hi / 2) ^ 7 / 5040)\<^sup>2"
    unfolding c by simp
qed

lemma three_degrees: "52359 / 1000000 \<le> 3 * pi / 180" "3 * pi / 180 \<le> 52361 / 1000000"
  using pi_sixth_bounds by simp_all

lemma one_degree: "52359 / 3000000 \<le> 1 * pi / 180" "1 * pi / 180 \<le> 52361 / 3000000"
  using pi_sixth_bounds by simp_all

lemma rounded_increments:
  "round (4096 * cos (3 * pi / 180)) = 4090" "round (4096 * sin (3 * pi / 180)) = 214"
  "round (4096 * cos (1 * pi / 180)) = 4095" "round (4096 * sin (1 * pi / 180)) = 71"
proof -
  note c3 = cos_interval [OF _ three_degrees]
  note s3 = sin_interval [OF _ three_degrees]
  note c1 = cos_interval [OF _ one_degree]
  note s1 = sin_interval [OF _ one_degree]
  have "99862 / 100000 \<le> cos (3 * pi / 180)" and "cos (3 * pi / 180) \<le> 99863 / 100000"
    using c3 by (simp_all add: power_divide power2_eq_square)
  then show "round (4096 * cos (3 * pi / 180)) = 4090"
    by (intro round_unique) simp_all
  have "5233 / 100000 \<le> sin (3 * pi / 180)" and "sin (3 * pi / 180) \<le> 52362 / 1000000"
    using s3 by (simp_all add: power_divide)
  then show "round (4096 * sin (3 * pi / 180)) = 214"
    by (intro round_unique) simp_all
  have "99984 / 100000 \<le> cos (1 * pi / 180)" and "cos (1 * pi / 180) \<le> 99985 / 100000"
    using c1 by (simp_all add: power_divide power2_eq_square)
  then show "round (4096 * cos (1 * pi / 180)) = 4095"
    by (intro round_unique) simp_all
  have "17452 / 1000000 \<le> sin (1 * pi / 180)" and "sin (1 * pi / 180) \<le> 17454 / 1000000"
    using s1 by (simp_all add: power_divide)
  then show "round (4096 * sin (1 * pi / 180)) = 71"
    by (intro round_unique) simp_all
qed

text \<open>
  C8 is about the floating-point initialisers of the two increments. Read over the reals,
  the initialisers round to the literals the model uses.
\<close>

lemma increments_from_angles:
  "rot0 = vec2 (of_int (round (4096 * cos (3 * pi / 180)))) (of_int (round (4096 * sin (3 * pi / 180))))"
  "loc0 = vec2 (of_int (round (4096 * cos (1 * pi / 180)))) (of_int (round (4096 * sin (1 * pi / 180))))"
  by (simp_all only: rounded_increments rot0_def loc0_def) simp_all

section \<open>The claims\<close>

text \<open>
  C1. For every vertex of the mesh and every state of the accumulators, that is each of
  the 120 values of the spin accumulator with each of the 360 values of the sway
  accumulator, one pass of the vertex loop returns without a fault and leaves in the
  screen buffer entry of that vertex exactly the pair of the integer formula:
  \<open>x = ((x0*spin.x - z0*spin.y) >> 12) + sway.y\<close>,
  \<open>z = ((x0*spin.y + z0*spin.x) >> 12) + sway.x\<close>, \<open>y = y0 + (sway.x >> 2)\<close>,
  \<open>z' = (z + 0x2a00) >> 6\<close>, then \<open>x / z' + 64\<close> and \<open>y / z' + 32\<close> with the division
  truncating toward zero. And after every frame of every run the entry of that vertex holds
  this pair for the accumulators of that frame.
\<close>

theorem pipeline_projects_vertices:
  assumes "i < NUM_VERTS" and "j < 120" and "k < 360"
    and "length (screen_verts s) = NUM_VERTS"
    and "rotation s = spin_state j" and "location s = sway_state k"
  shows "(\<exists>sv. transform_verts 0 s = Inr (s\<lparr>screen_verts := sv\<rparr>) \<and> length sv = NUM_VERTS
            \<and> ivec2 (sv ! i) =
                pipeline_spec (ivec2 (spin_state j)) (ivec2 (sway_state k)) (ivec3 (mesh_verts ! i)))
         \<and> (\<exists>s0 s1. run es init_state = Inr s0 \<and> loop s0 = Inr s1
                \<and> ivec2 (screen_verts s1 ! i) =
                    pipeline_spec (ivec2 (rotation s1)) (ivec2 (location s1))
                      (ivec3 (mesh_verts ! i)))"
proof -
  have rot: "at_most_unit (rotation s)" and loc: "at_most_unit (location s)"
    using assms(2,3,5,6) by (simp_all add: spin_unit sway_unit)
  from pipeline_pass [OF assms(4) rot loc] assms(1)
  have pass: "\<exists>sv. transform_verts 0 s = Inr (s\<lparr>screen_verts := sv\<rparr>) \<and> length sv = NUM_VERTS
            \<and> ivec2 (sv ! i) =
                pipeline_spec (ivec2 (spin_state j)) (ivec2 (sway_state k)) (ivec3 (mesh_verts ! i))"
    by (simp only: assms(5,6)) blast
  from run_ok [OF init_ok, of es] obtain s0 where r: "run es init_state = Inr s0"
    and ok: "accumulators_ok s0"
    by blast
  from loop_ok [OF ok] obtain sv bb where l: "loop s0 =
            Inr ((advance s0)\<lparr>screen_verts := sv, back_buffer := bb,
                   presented := presented s0 @ [bb], fps_counter := fps_counter s0 + 1\<rparr>)"
    and spec: "\<forall>i<NUM_VERTS. ivec2 (sv ! i) =
                pipeline_spec (ivec2 (rotation (advance s0))) (ivec2 (location (advance s0)))
                  (ivec3 (mesh_verts ! i))"
    by blast
  define s1 where "s1 = (advance s0)\<lparr>screen_verts := sv, back_buffer := bb,
                   presented := presented s0 @ [bb], fps_counter := fps_counter s0 + 1\<rparr>"
  have "ivec2 (screen_verts s1 ! i) =
          pipeline_spec (ivec2 (rotation s1)) (ivec2 (location s1)) (ivec3 (mesh_verts ! i))"
    using spec assms(1) by (simp add: s1_def)
  with r l have frame: "\<exists>s0 s1. run es init_state = Inr s0 \<and> loop s0 = Inr s1
                \<and> ivec2 (screen_verts s1 ! i) =
                    pipeline_spec (ivec2 (rotation s1)) (ivec2 (location s1))
                      (ivec3 (mesh_verts ! i))"
    unfolding s1_def by blast
  from pass frame show ?thesis
    by blast
qed

text \<open>
  C1, witness: the initial accumulators \<open>(0x1000, 0)\<close> and the first vertex of the cube,
  which lands on the pixel \<open>(71, 43)\<close>.
\<close>

theorem pipeline_projects_vertices_witness:
  "(0 :: nat) < NUM_VERTS \<and> (0 :: nat) < 120 \<and> (0 :: nat) < 360
   \<and> length (screen_verts init_state) = NUM_VERTS
   \<and> rotation init_state = spin_state 0 \<and> location init_state = sway_state 0
   \<and> (\<exists>sv. transform_verts 0 init_state = Inr (init_state\<lparr>screen_verts := sv\<rparr>)
          \<and> length sv = NUM_VERTS \<and> ivec2 (sv ! 0) = (71, 43))"
proof -
  have h: "(0 :: nat) < NUM_VERTS" "(0 :: nat) < 120" "(0 :: nat) < 360"
    "length (screen_verts init_state) = NUM_VERTS"
    "rotation init_state = spin_state 0" "location init_state = sway_state 0"
    by (simp_all add: NUM_VERTS_def init_state_def spin_state_def sway_state_def)
  have "pipeline_spec (ivec2 (spin_state 0)) (ivec2 (sway_state 0)) (ivec3 (mesh_verts ! 0))
          = (71, 43)"
    by (simp add: spin_state_def sway_state_def mesh_verts_def pipeline_spec_def ivec2_def
        ivec3_def Let_def signed_divide_int_def)
  with pipeline_projects_vertices [OF h] h show ?thesis
    by simp
qed

text \<open>
  C2. For every vertex of the mesh, each of the 120 values of the spin accumulator and each
  of the 360 values of the sway accumulator, the denominator \<open>z_prime\<close> is strictly
  positive and the projection of the vertex does not fault; and the accumulators of every
  state of every run from the initial state are among these values.
\<close>

theorem depth_denominator_positive:
  assumes "i < NUM_VERTS" and "j < 120" and "k < 360"
  shows "0 < sint (vertex_z_prime (spin_state j) (sway_state k) (mesh_verts ! i))
         \<and> (\<exists>p. transform_vertex (spin_state j) (sway_state k) (mesh_verts ! i) = Inr p)
         \<and> (\<exists>s. run es init_state = Inr s
                \<and> (\<exists>j'<120. \<exists>k'<360. rotation s = spin_state j' \<and> location s = sway_state k'))"
proof -
  note core = vertex_core [OF spin_unit [OF assms(2)] sway_unit [OF assms(3)] mesh_nth_ok [OF assms(1)]]
  have "0 < sint (vertex_z_prime (spin_state j) (sway_state k) (mesh_verts ! i))"
    using core(4) core(5) by linarith
  moreover have "\<exists>p. transform_vertex (spin_state j) (sway_state k) (mesh_verts ! i) = Inr p"
    using transform_vertex_spec [OF spin_unit [OF assms(2)] sway_unit [OF assms(3)] mesh_nth_ok [OF assms(1)]]
    by blast
  moreover from run_ok [OF init_ok, of es] obtain s where "run es init_state = Inr s"
    and "accumulators_ok s"
    by blast
  then have "\<exists>s. run es init_state = Inr s
                \<and> (\<exists>j'<120. \<exists>k'<360. rotation s = spin_state j' \<and> location s = sway_state k')"
    by (auto simp add: accumulators_ok_def)
  ultimately show ?thesis
    by blast
qed

text \<open>C2, witness: the first vertex, one frame after a reset of both accumulators.\<close>

theorem depth_denominator_positive_witness:
  "(0 :: nat) < NUM_VERTS \<and> (1 :: nat) < 120 \<and> (1 :: nat) < 360
   \<and> 0 < sint (vertex_z_prime (spin_state 1) (sway_state 1) (mesh_verts ! 0))"
  using depth_denominator_positive [of 0 1 1] by (simp add: NUM_VERTS_def)

text \<open>
  C3. For every pair of vectors, \<open>rotate\<close> returns the complex product at the fixed-point
  scale: the components read as signed integers, the exact real and imaginary parts,
  each shifted right arithmetically by 12 bits and narrowed to 16 bits.
\<close>

theorem rotate_fixed_point_product:
  "rotate_vec2 v r = vec2
     (word_of_int (drop_bit 12 (sint (v2x v) * sint (v2x r) - sint (v2y v) * sint (v2y r))))
     (word_of_int (drop_bit 12 (sint (v2x v) * sint (v2y r) + sint (v2y v) * sint (v2x r))))"
  by (rule rotate_int)

text \<open>
  The 32-bit intermediates of \<open>rotate\<close> hold the exact real and imaginary parts, except
  the imaginary part when all four components are \<open>-32768\<close> (\<open>rotate_intermediates\<close>);
  there the exact part is \<open>2\<^sup>3\<^sup>1\<close>, and the value returned is still the one of the
  statement above (\<open>rotate_extreme\<close>).
\<close>

text \<open>
  C4, as amended. For all vectors \<open>v\<close>, \<open>a\<close>, \<open>b\<close> of unit magnitude, each component of
  \<open>rotate (rotate v a) b\<close> differs from that of \<open>rotate v (rotate a b)\<close> by at most 3.
\<close>

theorem rotate_assoc_within_3:
  assumes v: "unit_mag v" and a: "unit_mag a" and b: "unit_mag b"
  shows "\<bar>sint (v2x (rotate_vec2 (rotate_vec2 v a) b)) - sint (v2x (rotate_vec2 v (rotate_vec2 a b)))\<bar> \<le> 3
       \<and> \<bar>sint (v2y (rotate_vec2 (rotate_vec2 v a) b)) - sint (v2y (rotate_vec2 v (rotate_vec2 a b)))\<bar> \<le> 3"
proof -
  have mv: "mag2 v \<le> 4097 * 4097" and ma: "mag2 a \<le> 4097 * 4097" and mb: "mag2 b \<le> 4097 * 4097"
    using v a b by (simp_all add: unit_mag_def)
  note cv = unit_components [OF mv] and ca = unit_components [OF ma] and cb = unit_components [OF mb]
  note inner_l = rotate_sint [OF cv(1,2) ca(1,2)]
  note inner_r = rotate_sint [OF ca(1,2) cb(1,2)]
  note outer_l = rotate_sint [OF rotate_unit_bound [OF mv ma] cb(1,2)]
  note outer_r = rotate_sint [OF cv(1,2) rotate_unit_bound [OF ma mb]]
  show ?thesis
    unfolding outer_l outer_r inner_l inner_r
    using assoc_core [OF cv(3) cb(3)] by simp
qed

text \<open>C4, witness: the two increments of the program as the three vectors.\<close>

theorem rotate_assoc_within_3_witness:
  "unit_mag rot0 \<and> unit_mag loc0
   \<and> \<bar>sint (v2x (rotate_vec2 (rotate_vec2 rot0 loc0) rot0))
        - sint (v2x (rotate_vec2 rot0 (rotate_vec2 loc0 rot0)))\<bar> \<le> 3
   \<and> \<bar>sint (v2y (rotate_vec2 (rotate_vec2 rot0 loc0) rot0))
        - sint (v2y (rotate_vec2 rot0 (rotate_vec2 loc0 rot0)))\<bar> \<le> 3"
proof -
  have h: "unit_mag rot0" "unit_mag loc0"
    by (simp_all add: unit_mag_def mag2_def rot0_def loc0_def)
  from rotate_assoc_within_3 [OF h(1) h(2) h(1)] h show ?thesis
    by simp
qed

text \<open>
  C4 as stated, with the bound 1, fails: for the unit vectors at 101 and 222 degrees and
  the spin increment, the first components of the two results are 3394 and 3397.
\<close>

theorem rotate_assoc_counterexample:
  "unit_mag (vec2 (- 782) 4021) \<and> unit_mag (vec2 (- 3044) (- 2741)) \<and> unit_mag rot0
   \<and> rotate_vec2 (rotate_vec2 (vec2 (- 782) 4021) (vec2 (- 3044) (- 2741))) rot0 = vec2 3394 (- 2291)
   \<and> rotate_vec2 (vec2 (- 782) 4021) (rotate_vec2 (vec2 (- 3044) (- 2741)) rot0) = vec2 3397 (- 2291)"
  by (simp add: unit_mag_def mag2_def rot0_def rotate_vec2_def)

text \<open>
  C5. In every state of every run, the next frame leaves each counter incremented and each
  accumulator rotated by its increment, except that exactly when the incremented counter
  equals the period (120 for the spin, 360 for the sway) the counter is 0 and the
  accumulator is \<open>(0x1000, 0)\<close> whatever the rotation gave; and after any whole number of
  periods the accumulator is \<open>(0x1000, 0)\<close> and its counter is 0.
\<close>

theorem revolution_reset:
  "(\<exists>s s'. run es init_state = Inr s \<and> loop s = Inr s'
        \<and> unat (rotation_counter s) < 120 \<and> unat (location_counter s) < 360
        \<and> rotation_counter s' =
            (if unat (rotation_counter s) + 1 = 120 then 0 else rotation_counter s + 1)
        \<and> rotation s' =
            (if unat (rotation_counter s) + 1 = 120 then vec2 0x1000 0
             else rotate_vec2 (rotation s) rot0)
        \<and> location_counter s' =
            (if unat (location_counter s) + 1 = 360 then 0 else location_counter s + 1)
        \<and> location s' =
            (if unat (location_counter s) + 1 = 360 then vec2 0x1000 0
             else rotate_vec2 (location s) loc0))
   \<and> (\<exists>s'. run (replicate (120 * n) Frame) init_state = Inr s'
          \<and> rotation s' = vec2 0x1000 0 \<and> rotation_counter s' = 0)
   \<and> (\<exists>s'. run (replicate (360 * n) Frame) init_state = Inr s'
          \<and> location s' = vec2 0x1000 0 \<and> location_counter s' = 0)"
proof -
  from run_ok [OF init_ok, of es] obtain s where r: "run es init_state = Inr s"
    and ok: "accumulators_ok s"
    by blast
  have rc: "unat (rotation_counter s) < 120" and lc: "unat (location_counter s) < 360"
    using ok by (simp_all add: accumulators_ok_def)
  from loop_inv [OF ok] obtain s1 where l: "loop s = Inr s1"
    and "rotation s1 = rotation (advance s)" and "location s1 = location (advance s)"
    and "rotation_counter s1 = rotation_counter (advance s)"
    and "location_counter s1 = location_counter (advance s)"
    by blast
  then have "rotation_counter s1 =
            (if unat (rotation_counter s) + 1 = 120 then 0 else rotation_counter s + 1)"
    and "rotation s1 =
            (if unat (rotation_counter s) + 1 = 120 then vec2 0x1000 0
             else rotate_vec2 (rotation s) rot0)"
    and "location_counter s1 =
            (if unat (location_counter s) + 1 = 360 then 0 else location_counter s + 1)"
    and "location s1 =
            (if unat (location_counter s) + 1 = 360 then vec2 0x1000 0
             else rotate_vec2 (location s) loc0)"
    by (simp_all only: advance_rotation [OF rc] advance_location [OF lc])
  with r l rc lc have frame: "\<exists>s s'. run es init_state = Inr s \<and> loop s = Inr s'
        \<and> unat (rotation_counter s) < 120 \<and> unat (location_counter s) < 360
        \<and> rotation_counter s' =
            (if unat (rotation_counter s) + 1 = 120 then 0 else rotation_counter s + 1)
        \<and> rotation s' =
            (if unat (rotation_counter s) + 1 = 120 then vec2 0x1000 0
             else rotate_vec2 (rotation s) rot0)
        \<and> location_counter s' =
            (if unat (location_counter s) + 1 = 360 then 0 else location_counter s + 1)
        \<and> location s' =
            (if unat (location_counter s) + 1 = 360 then vec2 0x1000 0
             else rotate_vec2 (location s) loc0)"
    by blast
  from run_frames [OF init_ok, of "120 * n"] obtain s2
    where r2: "run (replicate (120 * n) Frame) init_state = Inr s2" and ok2: "accumulators_ok s2"
      and c2: "unat (rotation_counter s2) = (unat (rotation_counter init_state) + 120 * n) mod 120"
    by blast
  have z2: "unat (rotation_counter s2) = 0"
    using c2 by (simp add: init_state_def)
  then have "rotation s2 = vec2 0x1000 0" and "rotation_counter s2 = 0"
    using ok2 by (simp_all add: accumulators_ok_def spin_state_def unat_eq_0)
  with r2 have spin: "\<exists>s'. run (replicate (120 * n) Frame) init_state = Inr s'
                \<and> rotation s' = vec2 0x1000 0 \<and> rotation_counter s' = 0"
    by simp
  from run_frames [OF init_ok, of "360 * n"] obtain s3
    where r3: "run (replicate (360 * n) Frame) init_state = Inr s3" and ok3: "accumulators_ok s3"
      and c3: "unat (location_counter s3) = (unat (location_counter init_state) + 360 * n) mod 360"
    by blast
  have z3: "unat (location_counter s3) = 0"
    using c3 by (simp add: init_state_def)
  then have "location s3 = vec2 0x1000 0" and "location_counter s3 = 0"
    using ok3 by (simp_all add: accumulators_ok_def sway_state_def unat_eq_0)
  with r3 have sway: "\<exists>s'. run (replicate (360 * n) Frame) init_state = Inr s'
                \<and> location s' = vec2 0x1000 0 \<and> location_counter s' = 0"
    by simp
  from frame spin sway show ?thesis
    by blast
qed

text \<open>C5, witness: the first frame of the program and two revolutions of the spin.\<close>

theorem revolution_reset_witness:
  "(\<exists>s'. loop init_state = Inr s' \<and> rotation_counter s' = 1
          \<and> rotation s' = rotate_vec2 (vec2 0x1000 0) rot0)
   \<and> (\<exists>s'. run (replicate 240 Frame) init_state = Inr s'
          \<and> rotation s' = vec2 0x1000 0 \<and> rotation_counter s' = 0)"
  using revolution_reset [of "[]" 2] by (auto simp add: init_state_def)

text \<open>
  C6, as amended. For every \<open>k < 256\<close>, after \<open>k\<close> iterations of the frame driver with
  no firing of the sampler in between, counted from the start of the program or from a
  firing of the sampler, the frame counter equals \<open>k\<close>; and a firing of the sampler leaves
  in the FPS sample the value the frame counter had and in the frame counter 0.
\<close>

theorem frame_counter_exact_below_256:
  assumes "k < 256"
  shows "(\<exists>s'. run (replicate k Frame) init_state = Inr s' \<and> unat (fps_counter s') = k)
         \<and> (\<exists>s'. run (es @ Sample # replicate k Frame) init_state = Inr s'
                \<and> unat (fps_counter s') = k)
         \<and> fps_display (ISR_TIMER1_COMPA s) = fps_counter s
         \<and> fps_counter (ISR_TIMER1_COMPA s) = 0"
proof -
  from run_frames [OF init_ok, of k] obtain s1 where r: "run (replicate k Frame) init_state = Inr s1"
    and fc: "fps_counter s1 = fps_counter init_state + of_nat k"
    by blast
  have "unat (fps_counter s1) = k"
    using fc assms by (simp add: unat_of_nat8 init_state_def)
  moreover from run_from_ok [OF init_ok, of es k] obtain s2
    where "run (es @ Sample # replicate k Frame) init_state = Inr s2"
      and "fps_counter s2 = of_nat k"
    by blast
  moreover from this(2) have "unat (fps_counter s2) = k"
    using assms by (simp add: unat_of_nat8)
  ultimately show ?thesis
    using r by (simp add: ISR_TIMER1_COMPA_def)
qed

text \<open>C6, witness: three frames.\<close>

theorem frame_counter_exact_below_256_witness:
  "(3 :: nat) < 256
   \<and> (\<exists>s'. run (replicate 3 Frame) init_state = Inr s' \<and> unat (fps_counter s') = 3)"
  using frame_counter_exact_below_256 [of 3] by simp

text \<open>
  C6 as stated, for every \<open>k\<close>, fails: after 256 iterations with no firing of the sampler
  the frame counter is 0.
\<close>

theorem frame_counter_256_counterexample:
  "map_sum id fps_counter (run (replicate 256 Frame) init_state) = Inr 0"
proof -
  from run_frames [OF init_ok, of 256] obtain s' where r: "run (replicate 256 Frame) init_state = Inr s'"
    and fc: "fps_counter s' = fps_counter init_state + of_nat 256"
    by blast
  have "fps_counter s' = 0"
    using fc by (simp add: init_state_def)
  with r show ?thesis
    by simp
qed

text \<open>
  C7. Every entry of the edge-index list, which has 136 entries, is below the vertex count
  57, and the edge loop run on a screen buffer of 57 entries draws its 68 lines without an
  access outside the index list or the screen buffer.
\<close>

theorem edge_indices_in_bounds:
  "list_all (\<lambda>k. unat k < NUM_VERTS) mesh_indices \<and> length mesh_indices = 136 \<and> NUM_VERTS = 57
   \<and> (length (screen_verts s) = NUM_VERTS \<longrightarrow>
        (\<exists>bb. draw_lines 0 s = Inr (s\<lparr>back_buffer := back_buffer s @ bb\<rparr>) \<and> length bb = 68))"
proof -
  have "\<exists>bb. draw_lines 0 s = Inr (s\<lparr>back_buffer := back_buffer s @ bb\<rparr>) \<and> length bb = 68"
    if "length (screen_verts s) = NUM_VERTS"
    using draw_lines_ok [OF that, of 0] by (simp add: NUM_INDICES_def)
  then show ?thesis
    using idx_bound idx_len by (simp add: NUM_INDICES_def NUM_VERTS_def)
qed

text \<open>C7, witness: the edge loop on the initial state.\<close>

theorem edge_indices_in_bounds_witness:
  "length (screen_verts init_state) = NUM_VERTS
   \<and> (\<exists>bb. draw_lines 0 init_state = Inr (init_state\<lparr>back_buffer := back_buffer init_state @ bb\<rparr>)
          \<and> length bb = 68)"
  using edge_indices_in_bounds [of init_state] by (simp add: init_state_def)

text \<open>
  C9. A firing of the sampler leaves the two accumulators, their counters, the screen buffer
  and everything drawn or presented as they were, in whatever state it fires; and what a
  run leaves in these fields is what the same run without its firings of the sampler
  leaves there, whether the sampler fires between two iterations of the frame driver or
  between two statements of one iteration.
\<close>

theorem sampler_leaves_rendering:
  "rotation (ISR_TIMER1_COMPA s) = rotation s \<and> location (ISR_TIMER1_COMPA s) = location s
   \<and> rotation_counter (ISR_TIMER1_COMPA s) = rotation_counter s
   \<and> location_counter (ISR_TIMER1_COMPA s) = location_counter s
   \<and> screen_verts (ISR_TIMER1_COMPA s) = screen_verts s
   \<and> back_buffer (ISR_TIMER1_COMPA s) = back_buffer s
   \<and> presented (ISR_TIMER1_COMPA s) = presented s
   \<and> map_sum id render_view (run es s) = map_sum id render_view (run (frames_only es) s)
   \<and> map_sum id render_view (run_micro ms s) = map_sum id render_view (run_micro (stmts_only ms) s)
   \<and> run_micro (concat (map expand es)) s = run es s"
  using run_view [of s s es] run_micro_view [of s s ms] run_expand [of es s]
  by (simp add: ISR_TIMER1_COMPA_def)

text \<open>
  C10. The frame counter and the FPS sample wrap modulo 256: after \<open>k\<close> iterations with no
  firing of the sampler the frame counter is \<open>k mod 256\<close>, the sample taken then is
  \<open>k mod 256\<close>, and every sample is at most 255.
\<close>

theorem frame_counter_wraps:
  "(\<exists>s'. run (replicate k Frame) init_state = Inr s' \<and> unat (fps_counter s') = k mod 256)
   \<and> (\<exists>s'. run (replicate k Frame @ [Sample]) init_state = Inr s'
          \<and> unat (fps_display s') = k mod 256 \<and> unat (fps_display s') \<le> 255)
   \<and> unat (fps_display (ISR_TIMER1_COMPA s)) \<le> 255"
proof -
  from run_frames [OF init_ok, of k] obtain s' where r: "run (replicate k Frame) init_state = Inr s'"
    and fc: "fps_counter s' = fps_counter init_state + of_nat k"
    by blast
  have c: "unat (fps_counter s') = k mod 256"
    using fc by (simp add: init_state_def unat_of_nat8)
  have "run (replicate k Frame @ [Sample]) init_state = Inr (ISR_TIMER1_COMPA s')"
    using r by (simp add: run_append)
  moreover have "unat (fps_display (ISR_TIMER1_COMPA s')) = k mod 256"
    using c by (simp add: ISR_TIMER1_COMPA_def)
  moreover have "k mod 256 \<le> 255"
    by simp
  moreover have "unat (fps_display (ISR_TIMER1_COMPA s)) \<le> 255"
    using unsigned_less [of "fps_display (ISR_TIMER1_COMPA s)", where ?'a = nat] by simp
  ultimately show ?thesis
    using r c by simp
qed

end
